theory Spec2Isabelle
  imports Main "HOL-Library.Sublist"
begin

section \<open>Data model\<close>

text \<open>
  The reconciliation engine is the class \<open>Agent\<close> of
  \<open>packages/indexer-agent/src/agent.ts\<close> (the later of the two versions of the file).
  The types it imports (\<open>SubgraphDeploymentID\<close>, \<open>Allocation\<close>, the indexing status)
  are declared outside the sources at hand; they are given here the fields the agent reads.

  A \<open>SubgraphDeploymentID\<close> is compared by its \<open>bytes32\<close> form only. \<open>ipfsHash\<close> names
  the deployment on the indexing node, \<open>display\<close> is what the log entries show, and
  \<open>toString\<close> is the text a template string renders for the object.
\<close>

record SubgraphDeploymentID =
  bytes32 :: string
  ipfsHash :: string
  display :: string
  toString :: string

text \<open>\<open>allocation.subgraphDeployment\<close>: the field \<open>id\<close> is named \<open>deployment_id\<close> here.\<close>

record SubgraphDeployment =
  deployment_id :: SubgraphDeploymentID
  signalAmount :: int
  stakedTokens :: int

text \<open>An allocation: the field \<open>id\<close> is named \<open>allocation_id\<close> here.\<close>

record Allocation =
  allocation_id :: string
  subgraphDeployment :: SubgraphDeployment
  createdAtEpoch :: int

text \<open>
  Modelled from the spec: \<open>parseGRT\<close> belongs to the library \<open>common-ts\<close>, which is not
  among the sources. The spec gives both thresholds as fixed constants of 10,000,000 token
  units; an amount is counted in the smallest unit of the token, of which a token has
  \<open>10 ^ 18\<close>.
\<close>

definition parseGRT :: "int \<Rightarrow> int" where
  "parseGRT grt = grt * 10 ^ 18"

definition MINIMUM_STAKE :: int where
  "MINIMUM_STAKE = parseGRT 10000000"

definition MINIMUM_SIGNAL :: int where
  "MINIMUM_SIGNAL = parseGRT 10000000"

section \<open>Array operations of the host language\<close>

text \<open>\<open>Array.prototype.findIndex\<close>: the index of the first match, \<open>-1\<close> when there is none.\<close>

fun findIndex :: "('a \<Rightarrow> bool) \<Rightarrow> 'a list \<Rightarrow> int" where
  "findIndex p [] = - 1"
| "findIndex p (x # xs) =
     (if p x then 0
      else (let i = findIndex p xs in if i = - 1 then - 1 else i + 1))"

text \<open>
  \<open>Array.prototype.filter\<close> with a callback that reads all three of its arguments:
  the value, its index, and the array being filtered.
\<close>

definition filterIndexed :: "('a \<Rightarrow> int \<Rightarrow> 'a list \<Rightarrow> bool) \<Rightarrow> 'a list \<Rightarrow> 'a list" where
  "filterIndexed f array =
     map fst (filter (\<lambda>(v, i). f v i array) (zip array (map int [0..<length array])))"

text \<open>
  \<open>Array.prototype.find\<close> is \<^const>\<open>List.find\<close>; the elements searched are objects, so
  \<open>!array.find(...)\<close> holds exactly when nothing is found.
\<close>

section \<open>The plan computed by \<open>Agent.resolve\<close>\<close>

definition uniqueDeploymentsOnly ::
  "SubgraphDeploymentID \<Rightarrow> int \<Rightarrow> SubgraphDeploymentID list \<Rightarrow> bool" where
  "uniqueDeploymentsOnly value index array =
     (findIndex (\<lambda>v. bytes32 value = bytes32 v) array = index)"

definition uniqueAllocationsOnly :: "Allocation \<Rightarrow> int \<Rightarrow> Allocation list \<Rightarrow> bool" where
  "uniqueAllocationsOnly value index array =
     (findIndex (\<lambda>v. allocation_id value = allocation_id v) array = index)"

definition settleAllocationsBeforeEpoch :: "int \<Rightarrow> int \<Rightarrow> int" where
  "settleAllocationsBeforeEpoch epoch maxEpochsPerAllocation =
     epoch - max 1 maxEpochsPerAllocation + 1"

text \<open>
  The four lists that \<open>resolve\<close> builds in its local variables before it acts on them.
  A variable that is assigned more than once carries a number for each assignment.
\<close>

record Plan =
  toDeploy :: "SubgraphDeploymentID list"
  toRemove :: "SubgraphDeploymentID list"
  toAllocate :: "SubgraphDeploymentID list"
  toSettle :: "Allocation list"

definition plan ::
  "SubgraphDeploymentID \<Rightarrow> int \<Rightarrow> int \<Rightarrow> SubgraphDeploymentID list \<Rightarrow>
   SubgraphDeploymentID list \<Rightarrow> Allocation list \<Rightarrow> Plan" where
  "plan networkSubgraphDeployment epoch maxEpochsPerAllocation networkDeployments
        indexerDeployments allocations =
    (let toDeploy1 = filter (\<lambda>networkDeployment.
            find (\<lambda>indexerDeployment.
                    bytes32 networkDeployment = bytes32 indexerDeployment)
                 indexerDeployments = None) networkDeployments;
         toRemove1 = filter (\<lambda>indexerDeployment.
            find (\<lambda>networkDeployment.
                    bytes32 indexerDeployment = bytes32 networkDeployment)
                 networkDeployments = None) indexerDeployments;
         toSettle1 = filter (\<lambda>allocation.
            createdAtEpoch allocation
              < settleAllocationsBeforeEpoch epoch maxEpochsPerAllocation \<or>
            (signalAmount (subgraphDeployment allocation) < MINIMUM_SIGNAL \<and>
             stakedTokens (subgraphDeployment allocation) < MINIMUM_STAKE)) allocations;
         toAllocate1 = filter (\<lambda>networkDeployment.
            find (\<lambda>allocation.
                    bytes32 (deployment_id (subgraphDeployment allocation))
                      = bytes32 networkDeployment)
                 allocations = None) networkDeployments;
         toDeploy2 = filterIndexed uniqueDeploymentsOnly toDeploy1;
         toRemove2 = filterIndexed uniqueDeploymentsOnly toRemove1;
         toAllocate2 = filterIndexed uniqueDeploymentsOnly toAllocate1;
         toSettle2 = filterIndexed uniqueAllocationsOnly toSettle1;
         toDeploy3 =
           (if find (\<lambda>deployment.
                       bytes32 deployment = bytes32 networkSubgraphDeployment)
                    toDeploy2 = None
            then toDeploy2 @ [networkSubgraphDeployment] else toDeploy2);
         toAllocate3 = filter (\<lambda>deployment.
            bytes32 deployment \<noteq> bytes32 networkSubgraphDeployment) toAllocate2
     in \<lparr> toDeploy = toDeploy3, toRemove = toRemove2,
          toAllocate = toAllocate3, toSettle = toSettle2 \<rparr>)"

section \<open>Effects: collaborators, errors, the log\<close>

text \<open>
  What the agent throws and catches. A \<open>TypeError\<close> is what the host language raises
  when a property is read from \<open>undefined\<close>; its text is the engine's, so the model
  keeps the name of the property that was read.
\<close>

datatype error = Error (message: string) | TypeError (message: string)

text \<open>The structured data of a log entry.\<close>

datatype json = JNull | JStr string | JNum int | JArr "json list" | JObj "(string \<times> json) list"

datatype level = Info | Warn

text \<open>The calls the agent makes to its two collaborators, the indexer and the network.\<close>

datatype call =
    Connect
  | Register
  | EnsureMinimumStake int
  | Ensure string SubgraphDeploymentID
  | GetIndexingStatus SubgraphDeploymentID
  | CurrentEpoch
  | MaxAllocationEpochs
  | SubgraphDeployments
  | IndexerRules bool
  | SubgraphDeploymentsWorthIndexing
  | ActiveAllocations
  | Settle Allocation
  | Allocate SubgraphDeploymentID
  | Remove SubgraphDeploymentID

text \<open>
  What an observer of the agent sees, in order: the entries it writes to its logger, the
  calls it makes, each with the error it was rejected with, if any, and the rejections
  that no part of the agent handles (\<open>Unhandled\<close>), which the runtime reports.
\<close>

datatype event = Log level string json | Called call "error option" | Unhandled error

text \<open>
  An asynchronous function returns, throws, or is still running when the fuel of a loop
  is used up (\<open>Pending\<close>); or the process ends under it (\<open>Crash\<close>), which is what
  Node.js does, by default from its version 15 on, when a promise is rejected and nothing
  handles the rejection. The function runs in a world \<open>'w\<close>, the state of everything
  outside the agent, which the calls to the collaborators read and change, and it yields
  the events it produced.
\<close>

datatype 'a result = Return 'a | Throw error | Pending | Crash error

type_synonym ('w, 'a) act = "'w \<Rightarrow> 'a result \<times> 'w \<times> event list"

definition ret :: "'a \<Rightarrow> ('w, 'a) act" where
  "ret x = (\<lambda>w. (Return x, w, []))"

definition throw :: "error \<Rightarrow> ('w, 'a) act" where
  "throw e = (\<lambda>w. (Throw e, w, []))"

text \<open>\<open>const x = await m; f x\<close>: what follows runs only when \<open>m\<close> returns.\<close>

definition bnd :: "('w, 'a) act \<Rightarrow> ('a \<Rightarrow> ('w, 'b) act) \<Rightarrow> ('w, 'b) act" where
  "bnd m f = (\<lambda>w. case m w of
      (Return x, w', evs) \<Rightarrow> (case f x w' of (r, w'', evs') \<Rightarrow> (r, w'', evs @ evs'))
    | (Throw e, w', evs) \<Rightarrow> (Throw e, w', evs)
    | (Pending, w', evs) \<Rightarrow> (Pending, w', evs)
    | (Crash e, w', evs) \<Rightarrow> (Crash e, w', evs))"

text \<open>
  \<open>try { m } catch (error) { h error }\<close>: the handler receives what \<open>m\<close> throws; the
  end of the process is not an exception, and no handler sees it.
\<close>

definition try_catch :: "('w, 'a) act \<Rightarrow> (error \<Rightarrow> ('w, 'a) act) \<Rightarrow> ('w, 'a) act" where
  "try_catch m h = (\<lambda>w. case m w of
      (Throw e, w', evs) \<Rightarrow> (case h e w' of (r, w'', evs') \<Rightarrow> (r, w'', evs @ evs'))
    | (Return x, w', evs) \<Rightarrow> (Return x, w', evs)
    | (Pending, w', evs) \<Rightarrow> (Pending, w', evs)
    | (Crash e, w', evs) \<Rightarrow> (Crash e, w', evs))"

definition logger :: "level \<Rightarrow> string \<Rightarrow> json \<Rightarrow> ('w, unit) act" where
  "logger lvl msg data = (\<lambda>w. (Return (), w, [Log lvl msg data]))"

text \<open>
  An awaited call to a collaborator. The collaborator is a function of the world that
  resolves (\<open>Inr\<close>) or rejects (\<open>Inl\<close>); a rejection is thrown at the \<open>await\<close>.
\<close>

definition perform :: "call \<Rightarrow> ('w \<Rightarrow> (error + 'a) \<times> 'w) \<Rightarrow> ('w, 'a) act" where
  "perform c f = (\<lambda>w. case f w of
      (Inl e, w') \<Rightarrow> (Throw e, w', [Called c (Some e)])
    | (Inr x, w') \<Rightarrow> (Return x, w', [Called c None]))"

text \<open>
  A promise that nobody awaits: its effects take place, and the caller goes on without its
  outcome. When the promise is rejected, nothing handles the rejection.
\<close>

definition detached :: "('w, 'a) act \<Rightarrow> ('w, unit) act" where
  "detached m = (\<lambda>w. case m w of
      (Return x, w', evs) \<Rightarrow> (Return (), w', evs)
    | (Throw e, w', evs) \<Rightarrow> (Return (), w', evs @ [Unhandled e])
    | (Pending, w', evs) \<Rightarrow> (Return (), w', evs)
    | (Crash e, w', evs) \<Rightarrow> (Crash e, w', evs))"

text \<open>\<open>for (const x of xs) { await f x }\<close>.\<close>

fun forEach :: "('a \<Rightarrow> ('w, unit) act) \<Rightarrow> 'a list \<Rightarrow> ('w, unit) act" where
  "forEach f [] = ret ()"
| "forEach f (x # xs) = bnd (f x) (\<lambda>_. forEach f xs)"

text \<open>\<open>delay\<close> only lets time pass, and time is not part of the model.\<close>

definition delay :: "int \<Rightarrow> ('w, unit) act" where
  "delay ms = ret ()"

text \<open>
  \<open>loop\<close>: \<open>while (true) { if (!(await f())) break; await delay(interval) }\<close>. The
  loop may run forever, so it takes fuel, the number of rounds it may still begin; with
  none left the result is \<open>Pending\<close>.
\<close>

fun loop :: "nat \<Rightarrow> ('w, bool) act \<Rightarrow> int \<Rightarrow> ('w, unit) act" where
  "loop 0 f interval = (\<lambda>w. (Pending, w, []))"
| "loop (Suc n) f interval =
     bnd f (\<lambda>continue. if \<not> continue then ret () else bnd (delay interval) (\<lambda>_. loop n f interval))"

text \<open>The first rejection among the events that nothing handles, if there is one.\<close>

fun firstUnhandled :: "event list \<Rightarrow> error option" where
  "firstUnhandled [] = None"
| "firstUnhandled (Unhandled e # evs) = Some e"
| "firstUnhandled (ev # evs) = firstUnhandled evs"

text \<open>
  Modelled from the spec: the task queue is the library \<open>p-queue\<close>, which is not among the
  sources. Following section 4.2 of the spec, \<open>add\<close> hands a task to the queue, which
  runs it, and \<open>onIdle\<close> returns once every task has come to its end; \<open>onIdle\<close> does
  not pass the failure of a task on to its caller, each task being responsible for its
  own errors. The failure of a task rejects the promise that \<open>add\<close> returns.

  The agent discards every promise that \<open>add\<close> returns, and the tasks catch nothing: so
  the error that a task throws is a rejection that nothing handles. \<open>queue_add task\<close> is
  the statement \<open>queue.add(task)\<close> of the agent, which goes on to the next statement
  whatever the task does. Tasks start in the order of their submission, and the model
  runs each task to its end where it is submitted. The runtime can end the process only
  where \<open>resolve\<close> next gives up control, which is at \<open>await queue.onIdle()\<close>: by then
  every task has started and has made its call. So \<open>queue_onIdle\<close> takes what was done
  with the queue since its creation, and ends the process with the first unhandled
  rejection, if there is one; otherwise it returns. The queue runs at most ten tasks at a
  time, the later ones starting as earlier ones end; the model does not bound their
  number.
\<close>

definition queue_add :: "('w, unit) act \<Rightarrow> ('w, unit) act" where
  "queue_add task = (\<lambda>w. case task w of
      (Return x, w', evs) \<Rightarrow> (Return (), w', evs)
    | (Throw e, w', evs) \<Rightarrow> (Return (), w', evs @ [Unhandled e])
    | (Pending, w', evs) \<Rightarrow> (Pending, w', evs)
    | (Crash e, w', evs) \<Rightarrow> (Crash e, w', evs))"

definition queue_onIdle :: "('w, unit) act \<Rightarrow> ('w, unit) act" where
  "queue_onIdle submitted = (\<lambda>w. case submitted w of
      (Return x, w', evs) \<Rightarrow>
        (case firstUnhandled evs of
           None \<Rightarrow> (Return (), w', evs)
         | Some e \<Rightarrow> (Crash e, w', evs))
    | (Throw e, w', evs) \<Rightarrow> (Throw e, w', evs)
    | (Pending, w', evs) \<Rightarrow> (Pending, w', evs)
    | (Crash e, w', evs) \<Rightarrow> (Crash e, w', evs))"

section \<open>The collaborators\<close>

text \<open>
  The classes \<open>Indexer\<close> and \<open>Network\<close> are outside the sources at hand: the agent is
  given them as parameters, one function of the world for each method it calls. The
  indexing rules are passed from the one to the other unread, a type \<open>'r\<close>.
\<close>

record FatalError =
  fatal_message :: string

record ChainIndexingStatus =
  latestBlock :: int
  chainHeadBlock :: int

record IndexingStatus =
  health :: string
  synced :: bool
  fatalError :: "FatalError option"
  chains :: "ChainIndexingStatus list"

record ('w, 'r) Indexer =
  connect :: "'w \<Rightarrow> (error + unit) \<times> 'w"
  ensure :: "string \<Rightarrow> SubgraphDeploymentID \<Rightarrow> 'w \<Rightarrow> (error + unit) \<times> 'w"
  remove :: "SubgraphDeploymentID \<Rightarrow> 'w \<Rightarrow> (error + unit) \<times> 'w"
  indexingStatus :: "SubgraphDeploymentID \<Rightarrow> 'w \<Rightarrow> (error + IndexingStatus) \<times> 'w"
  subgraphDeployments :: "'w \<Rightarrow> (error + SubgraphDeploymentID list) \<times> 'w"
  indexerRules :: "bool \<Rightarrow> 'w \<Rightarrow> (error + 'r) \<times> 'w"

text \<open>
  \<open>currentEpoch\<close> and \<open>maxAllocationEpochs\<close> stand for the contract call together with
  the conversion \<open>toNumber()\<close> of its result.
\<close>

record ('w, 'r) Network =
  register :: "'w \<Rightarrow> (error + unit) \<times> 'w"
  ensureMinimumStake :: "int \<Rightarrow> 'w \<Rightarrow> (error + unit) \<times> 'w"
  currentEpoch :: "'w \<Rightarrow> (error + int) \<times> 'w"
  maxAllocationEpochs :: "'w \<Rightarrow> (error + int) \<times> 'w"
  subgraphDeploymentsWorthIndexing ::
    "'r \<Rightarrow> 'w \<Rightarrow> (error + SubgraphDeploymentID list) \<times> 'w"
  activeAllocations :: "'w \<Rightarrow> (error + Allocation list) \<times> 'w"
  allocate :: "SubgraphDeploymentID \<Rightarrow> 'w \<Rightarrow> (error + unit) \<times> 'w"
  settle :: "Allocation \<Rightarrow> 'w \<Rightarrow> (error + unit) \<times> 'w"

record ('w, 'r) Agent =
  indexer :: "('w, 'r) Indexer"
  network :: "('w, 'r) Network"
  networkSubgraphDeployment :: SubgraphDeploymentID

section \<open>\<open>Agent.resolve\<close>\<close>

text \<open>\<open>s.slice(-n)\<close>: the last \<open>n\<close> characters, all of \<open>s\<close> when it is shorter.\<close>

definition sliceFromEnd :: "nat \<Rightarrow> string \<Rightarrow> string" where
  "sliceFromEnd n s = drop (length s - n) s"

definition deploymentName :: "SubgraphDeploymentID \<Rightarrow> string" where
  "deploymentName deployment = ''indexer-agent/'' @ sliceFromEnd 10 (ipfsHash deployment)"

text \<open>
  The task queued for a deployment of \<open>toDeploy\<close>: the call to \<open>ensure\<close> is not
  awaited, the task sleeps instead. Nothing handles a rejection of that call.
\<close>

definition deployTask :: "('w, 'r) Agent \<Rightarrow> SubgraphDeploymentID \<Rightarrow> ('w, unit) act" where
  "deployTask agent deployment =
     bnd (logger Info ''Begin indexing subgraph deployment''
            (JObj [(''name'', JStr (deploymentName deployment)),
                   (''deployment'', JStr (display deployment))])) (\<lambda>_.
     bnd (detached (perform (Ensure (deploymentName deployment) deployment)
            (ensure (indexer agent) (deploymentName deployment) deployment))) (\<lambda>_.
     delay 2000))"

text \<open>
  The task queued for a deployment of \<open>toRemove\<close>: it awaits the call to \<open>remove\<close>, and
  throws what that call is rejected with.
\<close>

definition removeTask :: "('w, 'r) Agent \<Rightarrow> SubgraphDeploymentID \<Rightarrow> ('w, unit) act" where
  "removeTask agent deployment =
     perform (Remove deployment) (remove (indexer agent) deployment)"

text \<open>The last part of \<open>resolve\<close>, from the creation of the queue to \<open>onIdle\<close>.\<close>

definition deployAndRemove ::
  "('w, 'r) Agent \<Rightarrow> SubgraphDeploymentID list \<Rightarrow> SubgraphDeploymentID list \<Rightarrow>
   ('w, unit) act" where
  "deployAndRemove agent toDeploy3 toRemove2 =
     queue_onIdle
       (bnd (forEach (\<lambda>deployment. queue_add (deployTask agent deployment)) toDeploy3) (\<lambda>_.
        forEach (\<lambda>deployment. queue_add (removeTask agent deployment)) toRemove2))"

definition resolve ::
  "('w, 'r) Agent \<Rightarrow> int \<Rightarrow> int \<Rightarrow> SubgraphDeploymentID list \<Rightarrow>
   SubgraphDeploymentID list \<Rightarrow> Allocation list \<Rightarrow> ('w, unit) act" where
  "resolve agent epoch maxEpochsPerAllocation networkDeployments indexerDeployments
       allocations =
     bnd (logger Info ''Synchronization result''
            (JObj [(''epoch'', JNum epoch),
                   (''maxEpochsPerAllocation'', JNum maxEpochsPerAllocation),
                   (''worthIndexing'', JArr (map (\<lambda>d. JStr (display d)) networkDeployments)),
                   (''alreadyIndexing'', JArr (map (\<lambda>d. JStr (display d)) indexerDeployments)),
                   (''alreadyAllocated'', JArr (map (\<lambda>a.
                       JObj [(''id'', JStr (allocation_id a)),
                             (''deployment'',
                                JStr (display (deployment_id (subgraphDeployment a)))),
                             (''createdAtEpoch'', JNum (createdAtEpoch a))]) allocations))])) (\<lambda>_.
     bnd (logger Info ''Settle all allocations before epoch''
            (JObj [(''epoch'',
               JNum (settleAllocationsBeforeEpoch epoch maxEpochsPerAllocation))])) (\<lambda>_.
     let p = plan (networkSubgraphDeployment agent) epoch maxEpochsPerAllocation
               networkDeployments indexerDeployments allocations in
     bnd (logger Info ''Apply changes''
            (JObj [(''deploy'', JArr (map (\<lambda>d. JStr (display d)) (toDeploy p))),
                   (''remove'', JArr (map (\<lambda>d. JStr (display d)) (toRemove p))),
                   (''allocate'', JArr (map (\<lambda>d. JStr (display d)) (toAllocate p))),
                   (''settle'', JArr (map (\<lambda>a. JStr (allocation_id a @ '' (deployment: ''
                       @ toString (deployment_id (subgraphDeployment a)) @ '')''))
                     (toSettle p)))])) (\<lambda>_.
     bnd (forEach (\<lambda>allocation.
            perform (Settle allocation) (settle (network agent) allocation)) (toSettle p)) (\<lambda>_.
     bnd (forEach (\<lambda>deployment.
            perform (Allocate deployment) (allocate (network agent) deployment))
            (toAllocate p)) (\<lambda>_.
     deployAndRemove agent (toDeploy p) (toRemove p))))))"

section \<open>\<open>Agent.start\<close>\<close>

text \<open>
  One round of the first loop of \<open>start\<close>, which waits for the network subgraph
  deployment to be synced. The percentage in the progress entry is a floating-point
  text; the entry carries the two block numbers it is computed from instead.
\<close>

definition syncStatusPoll :: "('w, 'r) Agent \<Rightarrow> ('w, bool) act" where
  "syncStatusPoll agent =
     bnd (logger Info ''Waiting for network subgraph deployment to be synced'' JNull) (\<lambda>_.
     bnd (perform (GetIndexingStatus (networkSubgraphDeployment agent))
            (indexingStatus (indexer agent) (networkSubgraphDeployment agent))) (\<lambda>status.
     if health status \<noteq> ''healthy'' then
       (case fatalError status of
          None \<Rightarrow> throw (TypeError ''message'')
        | Some fatal \<Rightarrow> throw (Error (''Failed to index network subgraph deployment ''
            @ [CHR 0x27] @ toString (networkSubgraphDeployment agent) @ [CHR 0x27] @ '': ''
            @ fatal_message fatal)))
     else if synced status then ret False
     else
       (case chains status of
          [] \<Rightarrow> throw (TypeError ''latestBlock'')
        | chain # _ \<Rightarrow>
            bnd (logger Info ''Network subgraph is synced''
                   (JObj [(''latestBlock'', JNum (latestBlock chain)),
                          (''chainHeadBlock'', JNum (chainHeadBlock chain))])) (\<lambda>_.
            ret True))))"

text \<open>What the second loop of \<open>start\<close> does inside its \<open>try\<close>.\<close>

definition synchronize :: "('w, 'r) Agent \<Rightarrow> ('w, unit) act" where
  "synchronize agent =
     bnd (logger Info ''Synchronizing subgraphs'' JNull) (\<lambda>_.
     bnd (perform CurrentEpoch (currentEpoch (network agent))) (\<lambda>epoch.
     bnd (perform MaxAllocationEpochs (maxAllocationEpochs (network agent)))
       (\<lambda>maxEpochsPerAllocation.
     bnd (perform SubgraphDeployments (subgraphDeployments (indexer agent)))
       (\<lambda>indexerDeployments.
     bnd (perform (IndexerRules True) (indexerRules (indexer agent) True)) (\<lambda>rules.
     bnd (perform SubgraphDeploymentsWorthIndexing
            (subgraphDeploymentsWorthIndexing (network agent) rules)) (\<lambda>networkSubgraphs.
     bnd (perform ActiveAllocations (activeAllocations (network agent))) (\<lambda>allocations.
     resolve agent epoch maxEpochsPerAllocation
       (networkSubgraphs @ [networkSubgraphDeployment agent])
       indexerDeployments allocations)))))))"

text \<open>One round of the second loop: a tick of the reconciliation.\<close>

definition tick :: "('w, 'r) Agent \<Rightarrow> ('w, bool) act" where
  "tick agent =
     bnd (try_catch (synchronize agent)
            (\<lambda>error. logger Warn ''Synchronization loop failed:''
               (JObj [(''error'', JStr (message error))]))) (\<lambda>_.
     ret True)"

text \<open>\<open>start\<close>, each of its two loops with the fuel \<open>n\<close>.\<close>

definition start :: "nat \<Rightarrow> ('w, 'r) Agent \<Rightarrow> ('w, unit) act" where
  "start n agent =
     bnd (logger Info ''Connect to graph node(s)'' JNull) (\<lambda>_.
     bnd (perform Connect (connect (indexer agent))) (\<lambda>_.
     bnd (logger Info ''Register indexer and stake on the network'' JNull) (\<lambda>_.
     bnd (perform Register (register (network agent))) (\<lambda>_.
     bnd (perform (EnsureMinimumStake (parseGRT 1000))
            (ensureMinimumStake (network agent) (parseGRT 1000))) (\<lambda>_.
     bnd (logger Info ''Indexer active and registered on network'' JNull) (\<lambda>_.
     bnd (perform
            (Ensure (take 23 (ipfsHash (networkSubgraphDeployment agent)) @ ''/''
                       @ drop 23 (ipfsHash (networkSubgraphDeployment agent)))
                    (networkSubgraphDeployment agent))
            (ensure (indexer agent)
               (take 23 (ipfsHash (networkSubgraphDeployment agent)) @ ''/''
                  @ drop 23 (ipfsHash (networkSubgraphDeployment agent)))
               (networkSubgraphDeployment agent))) (\<lambda>_.
     bnd (loop n (syncStatusPoll agent) 5000) (\<lambda>_.
     bnd (logger Info ''Network subgraph deployment is synced'' JNull) (\<lambda>_.
     bnd (logger Info ''Periodically synchronizing subgraphs'' JNull) (\<lambda>_.
     loop n (tick agent) 5000))))))))))"

section \<open>Notions used to state and prove the properties\<close>

text \<open>What the two \<open>unique...Only\<close> filters compute: the first entry of every key.\<close>

fun firstOfEachKey :: "('a \<Rightarrow> 'k) \<Rightarrow> 'k set \<Rightarrow> 'a list \<Rightarrow> 'a list" where
  "firstOfEachKey key seen [] = []"
| "firstOfEachKey key seen (x # xs) =
     (if key x \<in> seen then firstOfEachKey key seen xs
      else x # firstOfEachKey key (insert (key x) seen) xs)"

text \<open>The calls among the events, in the order in which they were made.\<close>

fun calls :: "event list \<Rightarrow> call list" where
  "calls [] = []"
| "calls (Log lvl msg data # evs) = calls evs"
| "calls (Called c outcome # evs) = c # calls evs"
| "calls (Unhandled e # evs) = calls evs"

text \<open>The error of the first rejected call among the events, if there is one.\<close>

fun firstRejected :: "event list \<Rightarrow> error option" where
  "firstRejected [] = None"
| "firstRejected (Called c (Some e) # evs) = Some e"
| "firstRejected (ev # evs) = firstRejected evs"

text \<open>A log entry of level \<open>Info\<close>.\<close>

fun infoLog :: "event \<Rightarrow> bool" where
  "infoLog (Log Info msg data) = True"
| "infoLog ev = False"

text \<open>What the runtime reports when a call made in a queued task has this outcome.\<close>

fun unhandledOf :: "error option \<Rightarrow> event list" where
  "unhandledOf None = []"
| "unhandledOf (Some e) = [Unhandled e]"

text \<open>
  The events of a deploy task: its log entry and its call to \<open>ensure\<close>, with the outcome
  of that call, a rejection being left unhandled.
\<close>

definition deployEvents :: "SubgraphDeploymentID \<Rightarrow> error option \<Rightarrow> event list" where
  "deployEvents deployment outcome =
     [Log Info ''Begin indexing subgraph deployment''
        (JObj [(''name'', JStr (deploymentName deployment)),
               (''deployment'', JStr (display deployment))]),
      Called (Ensure (deploymentName deployment) deployment) outcome]
     @ unhandledOf outcome"

text \<open>
  The events of a remove task: its call to \<open>remove\<close>, with the outcome of that call, a
  rejection being left unhandled.
\<close>

definition removeEvents :: "SubgraphDeploymentID \<Rightarrow> error option \<Rightarrow> event list" where
  "removeEvents deployment outcome = Called (Remove deployment) outcome # unhandledOf outcome"

text \<open>
  How the drain of the queue ends after these events: the process ends with the first
  unhandled rejection, or \<open>onIdle\<close> returns.
\<close>

definition afterDrain :: "event list \<Rightarrow> unit result" where
  "afterDrain evs = (case firstUnhandled evs of None \<Rightarrow> Return () | Some e \<Rightarrow> Crash e)"

text \<open>The two events that begin every round of the first loop of \<open>start\<close>.\<close>

definition pollEvents :: "SubgraphDeploymentID \<Rightarrow> event list" where
  "pollEvents deployment =
     [Log Info ''Waiting for network subgraph deployment to be synced'' JNull,
      Called (GetIndexingStatus deployment) None]"

text \<open>
  \<open>ensure\<close> and \<open>remove\<close> are the calls that \<open>resolve\<close> makes inside the tasks it
  hands to the queue; every other call of a tick is awaited in the tick itself. A
  \<open>failure\<close> is a rejected call or an unhandled rejection. A run is \<open>orderly\<close> when
  it returns after no failure; or throws the error of a rejected awaited call that is its
  last event and its only failure; or ends the process with the error of a rejected call
  of a queued task, no awaited call having been rejected. An orderly run is never still
  pending.
\<close>

fun queuedCall :: "call \<Rightarrow> bool" where
  "queuedCall (Ensure name deployment) = True"
| "queuedCall (Remove deployment) = True"
| "queuedCall c = False"

fun failure :: "event \<Rightarrow> bool" where
  "failure (Called c (Some e)) = True"
| "failure (Unhandled e) = True"
| "failure ev = False"

definition orderly :: "'a result \<Rightarrow> event list \<Rightarrow> bool" where
  "orderly r evs =
     (case r of
        Return x \<Rightarrow> list_all (\<lambda>ev. \<not> failure ev) evs
      | Throw e \<Rightarrow> (\<exists>c pre. \<not> queuedCall c \<and> evs = pre @ [Called c (Some e)] \<and>
            list_all (\<lambda>ev. \<not> failure ev) pre)
      | Pending \<Rightarrow> False
      | Crash e \<Rightarrow> (\<exists>c. queuedCall c \<and> Called c (Some e) \<in> set evs) \<and>
            (\<forall>c e'. Called c (Some e') \<in> set evs \<longrightarrow> queuedCall c))"

text \<open>
  The events of a drained queue are \<open>accounted\<close> for: either nothing failed, or the first
  unhandled rejection is the error of a rejected call of a queued task.
\<close>

definition accounted :: "event list \<Rightarrow> bool" where
  "accounted evs =
     (case firstUnhandled evs of
        None \<Rightarrow> list_all (\<lambda>ev. \<not> failure ev) evs
      | Some e \<Rightarrow> (\<exists>c. queuedCall c \<and> Called c (Some e) \<in> set evs))"

definition orderly_act :: "('w, 'a) act \<Rightarrow> bool" where
  "orderly_act m = (\<forall>w. orderly (fst (m w)) (snd (snd (m w))))"

text \<open>\<open>emits m P\<close>: every event that \<open>m\<close> produces, in any world, satisfies \<open>P\<close>.\<close>

definition emits :: "('w, 'a) act \<Rightarrow> (event \<Rightarrow> bool) \<Rightarrow> bool" where
  "emits m P = (\<forall>w. list_all P (snd (snd (m w))))"

text \<open>
  The \<open>bytes32\<close> form of the deployment that an event removes from the indexer, if it is
  a call to \<open>remove\<close>; \<open>keepsSelf self\<close> holds of every event but a removal of \<open>self\<close>.
\<close>

fun removalOf :: "event \<Rightarrow> string option" where
  "removalOf (Called (Remove deployment) outcome) = Some (bytes32 deployment)"
| "removalOf ev = None"

definition keepsSelf :: "SubgraphDeploymentID \<Rightarrow> event \<Rightarrow> bool" where
  "keepsSelf self ev = (removalOf ev \<noteq> Some (bytes32 self))"

section \<open>Example inputs\<close>

definition SELF :: SubgraphDeploymentID where
  "SELF = \<lparr> bytes32 = ''0x00'', ipfsHash = ''QmSelfTrackingNetworkSubgraphDeployment'',
            display = ''self'', toString = ''0x00'' \<rparr>"

definition X :: SubgraphDeploymentID where
  "X = \<lparr> bytes32 = ''0x01'', ipfsHash = ''QmDeploymentWorthIndexingOnTheNetwork'',
         display = ''x'', toString = ''0x01'' \<rparr>"

definition Y :: SubgraphDeploymentID where
  "Y = \<lparr> bytes32 = ''0x02'', ipfsHash = ''QmDeploymentIndexedOnTheLocalNodeOnly'',
         display = ''y'', toString = ''0x02'' \<rparr>"

text \<open>Scenario C of the spec: an allocation of epoch 50, on a well-funded deployment.\<close>

definition oldAllocation :: Allocation where
  "oldAllocation = \<lparr> allocation_id = ''a1'',
      subgraphDeployment = \<lparr> deployment_id = X, signalAmount = parseGRT 20000000,
                             stakedTokens = parseGRT 20000000 \<rparr>,
      createdAtEpoch = 50 \<rparr>"

text \<open>Scenario D: an allocation of epoch 99 whose deployment is below both thresholds.\<close>

definition poorAllocation :: Allocation where
  "poorAllocation = \<lparr> allocation_id = ''a2'',
      subgraphDeployment = \<lparr> deployment_id = Y, signalAmount = 5, stakedTokens = 7 \<rparr>,
      createdAtEpoch = 99 \<rparr>"

text \<open>A young allocation whose deployment is below the stake threshold only.\<close>

definition freshAllocation :: Allocation where
  "freshAllocation = \<lparr> allocation_id = ''a3'',
      subgraphDeployment = \<lparr> deployment_id = X, signalAmount = parseGRT 20000000,
                             stakedTokens = 7 \<rparr>,
      createdAtEpoch = 99 \<rparr>"

text \<open>A second record with the id of \<open>oldAllocation\<close>, created ten epochs later.\<close>

definition twinAllocation :: Allocation where
  "twinAllocation = \<lparr> allocation_id = ''a1'',
      subgraphDeployment = \<lparr> deployment_id = X, signalAmount = parseGRT 20000000,
                             stakedTokens = parseGRT 20000000 \<rparr>,
      createdAtEpoch = 60 \<rparr>"

text \<open>
  Example collaborators. The world is the number of status polls made so far: the indexer
  answers the poll number \<open>w\<close> with \<open>statusAt w\<close>. Its \<open>remove\<close> and the network's
  \<open>settle\<close> succeed or fail as the two flags say; every other call succeeds. Epoch 100,
  at most 28 epochs for an allocation, \<open>X\<close> worth indexing, \<open>Y\<close> indexed locally, one
  allocation of epoch 50 on \<open>X\<close>.
\<close>

definition syncingStatus :: IndexingStatus where
  "syncingStatus = \<lparr> health = ''healthy'', synced = False, fatalError = None,
      chains = [\<lparr> latestBlock = 50, chainHeadBlock = 200 \<rparr>] \<rparr>"

definition syncedStatus :: IndexingStatus where
  "syncedStatus = \<lparr> health = ''healthy'', synced = True, fatalError = None,
      chains = [\<lparr> latestBlock = 200, chainHeadBlock = 200 \<rparr>] \<rparr>"

definition failedStatus :: IndexingStatus where
  "failedStatus = \<lparr> health = ''failed'', synced = False,
      fatalError = Some \<lparr> fatal_message = ''X'' \<rparr>, chains = [] \<rparr>"

definition stalledStatus :: IndexingStatus where
  "stalledStatus = \<lparr> health = ''healthy'', synced = False, fatalError = None, chains = [] \<rparr>"

definition exampleIndexer :: "(nat \<Rightarrow> IndexingStatus) \<Rightarrow> bool \<Rightarrow> (nat, unit) Indexer" where
  "exampleIndexer statusAt removable =
     \<lparr> connect = (\<lambda>w. (Inr (), w)),
       ensure = (\<lambda>name deployment w. (Inr (), w)),
       remove = (\<lambda>deployment w.
         (if removable then Inr () else Inl (Error ''remove failed''), w)),
       indexingStatus = (\<lambda>deployment w. (Inr (statusAt w), Suc w)),
       subgraphDeployments = (\<lambda>w. (Inr [Y], w)),
       indexerRules = (\<lambda>merged w. (Inr (), w)) \<rparr>"

definition exampleNetwork :: "bool \<Rightarrow> (nat, unit) Network" where
  "exampleNetwork settleable =
     \<lparr> register = (\<lambda>w. (Inr (), w)),
       ensureMinimumStake = (\<lambda>amount w. (Inr (), w)),
       currentEpoch = (\<lambda>w. (Inr 100, w)),
       maxAllocationEpochs = (\<lambda>w. (Inr 28, w)),
       subgraphDeploymentsWorthIndexing = (\<lambda>rules w. (Inr [X], w)),
       activeAllocations = (\<lambda>w. (Inr [oldAllocation], w)),
       allocate = (\<lambda>deployment w. (Inr (), w)),
       settle = (\<lambda>allocation w.
         (if settleable then Inr () else Inl (Error ''settle failed''), w)) \<rparr>"

definition exampleAgent ::
  "(nat \<Rightarrow> IndexingStatus) \<Rightarrow> bool \<Rightarrow> bool \<Rightarrow> (nat, unit) Agent" where
  "exampleAgent statusAt removable settleable =
     \<lparr> indexer = exampleIndexer statusAt removable,
       network = exampleNetwork settleable,
       networkSubgraphDeployment = SELF \<rparr>"

lemmas example_defs =
  SELF_def X_def Y_def oldAllocation_def poorAllocation_def freshAllocation_def
  twinAllocation_def
  parseGRT_def MINIMUM_STAKE_def MINIMUM_SIGNAL_def

lemmas agent_defs = exampleAgent_def exampleIndexer_def exampleNetwork_def
  syncingStatus_def syncedStatus_def failedStatus_def stalledStatus_def

section \<open>Facts about the array operations\<close>

lemma findIndex_ge: "- 1 \<le> findIndex p xs"
  by (induction xs) (auto simp: Let_def)

lemma findIndex_none: "findIndex p xs = - 1 \<longleftrightarrow> (\<forall>x \<in> set xs. \<not> p x)"
proof (induction xs)
  case Nil
  show ?case by simp
next
  case (Cons x xs)
  have "findIndex p xs + 1 \<noteq> - 1"
    using findIndex_ge [of p xs] by arith
  with Cons show ?case by (auto simp: Let_def)
qed

lemma findIndex_append_found:
  "\<exists>x \<in> set pre. p x \<Longrightarrow> findIndex p (pre @ xs) < int (length pre)"
proof (induction pre)
  case Nil
  then show ?case by simp
next
  case (Cons a pre)
  show ?case
  proof (cases "p a")
    case True
    then show ?thesis by simp
  next
    case False
    with Cons.prems have ex: "\<exists>x \<in> set pre. p x" by simp
    then have "findIndex p (pre @ xs) \<noteq> - 1"
      by (auto simp: findIndex_none)
    with False Cons.IH [OF ex] show ?thesis by (simp add: Let_def)
  qed
qed

lemma findIndex_append_here:
  "\<forall>x \<in> set pre. \<not> p x \<Longrightarrow> p y \<Longrightarrow> findIndex p (pre @ y # xs) = int (length pre)"
  by (induction pre) (auto simp: Let_def)

lemma unique_filter_from:
  "map fst (filter (\<lambda>(v, i). findIndex (\<lambda>u. key v = key u) (pre @ xs) = i)
      (zip xs (map int [length pre..<length pre + length xs])))
   = firstOfEachKey key (key ` set pre) xs"
proof (induction xs arbitrary: pre)
  case Nil
  show ?case by simp
next
  case (Cons x xs)
  have range: "[length pre..<length pre + length (x # xs)]
      = length pre # [length (pre @ [x])..<length (pre @ [x]) + length xs]"
    by (simp add: upt_rec)
  have split: "pre @ x # xs = (pre @ [x]) @ xs" by simp
  have head: "findIndex (\<lambda>u. key x = key u) (pre @ x # xs) = int (length pre)
      \<longleftrightarrow> key x \<notin> key ` set pre"
  proof (cases "key x \<in> key ` set pre")
    case True
    then have "\<exists>u \<in> set pre. key x = key u" by auto
    from findIndex_append_found [OF this, of "x # xs"] True show ?thesis by simp
  next
    case False
    then have "\<forall>u \<in> set pre. key x \<noteq> key u" by auto
    from findIndex_append_here [of pre "\<lambda>u. key x = key u" x xs, OF this] False
    show ?thesis by simp
  qed
  have rest: "map fst (filter (\<lambda>(v, i). findIndex (\<lambda>u. key v = key u) (pre @ x # xs) = i)
        (zip xs (map int [length (pre @ [x])..<length (pre @ [x]) + length xs])))
      = firstOfEachKey key (key ` set (pre @ [x])) xs"
    using Cons.IH [of "pre @ [x]"] by (simp only: split)
  have seen: "key x \<in> key ` set pre \<Longrightarrow> key ` set (pre @ [x]) = key ` set pre"
    by auto
  show ?case
    unfolding range using head rest seen by (auto simp del: upt_Suc)
qed

lemma filterIndexed_unique:
  "filterIndexed (\<lambda>value index array. findIndex (\<lambda>v. key value = key v) array = index) xs
   = firstOfEachKey key {} xs"
  using unique_filter_from [of key "[]" xs] by (simp add: filterIndexed_def)

lemma firstOfEachKey_keys:
  "key ` set (firstOfEachKey key seen xs) = key ` set xs - seen"
  by (induction xs arbitrary: seen) auto

lemma firstOfEachKey_subset: "set (firstOfEachKey key seen xs) \<subseteq> set xs"
  by (induction xs arbitrary: seen) auto

lemma firstOfEachKey_distinct: "distinct (map key (firstOfEachKey key seen xs))"
proof (induction xs arbitrary: seen)
  case Nil
  show ?case by simp
next
  case (Cons x xs)
  have "key x \<notin> key ` set (firstOfEachKey key (insert (key x) seen) xs)"
    by (simp add: firstOfEachKey_keys)
  with Cons show ?case by simp
qed

lemma firstOfEachKey_inj:
  "inj_on key (set xs) \<Longrightarrow> set (firstOfEachKey key seen xs) = {x \<in> set xs. key x \<notin> seen}"
proof (induction xs arbitrary: seen)
  case Nil
  show ?case by simp
next
  case (Cons x xs)
  from Cons.prems have inj: "inj_on key (set xs)" by (simp add: inj_on_def)
  from Cons.prems have same: "\<And>y. y \<in> set xs \<Longrightarrow> key y = key x \<Longrightarrow> y = x"
    by (auto simp: inj_on_def)
  show ?case using Cons.IH [OF inj] same by auto
qed

lemma find_none: "find p xs = None \<longleftrightarrow> (\<forall>x \<in> set xs. \<not> p x)"
  by (auto simp: find_None_iff)

lemma find_key_none: "find (\<lambda>y. k = key y) ys = None \<longleftrightarrow> k \<notin> key ` set ys"
  by (auto simp: find_none)

lemma find_key_none_sym: "find (\<lambda>y. key y = k) ys = None \<longleftrightarrow> k \<notin> key ` set ys"
  by (auto simp: find_none)

section \<open>The plan, list by list\<close>

lemma uniqueDeploymentsOnly_filter:
  "filterIndexed uniqueDeploymentsOnly xs = firstOfEachKey bytes32 {} xs"
proof -
  have eq: "uniqueDeploymentsOnly
      = (\<lambda>value index array. findIndex (\<lambda>v. bytes32 value = bytes32 v) array = index)"
    by (intro ext) (simp add: uniqueDeploymentsOnly_def)
  show ?thesis by (subst eq) (rule filterIndexed_unique)
qed

lemma uniqueAllocationsOnly_filter:
  "filterIndexed uniqueAllocationsOnly xs = firstOfEachKey allocation_id {} xs"
proof -
  have eq: "uniqueAllocationsOnly
      = (\<lambda>value index array.
           findIndex (\<lambda>v. allocation_id value = allocation_id v) array = index)"
    by (intro ext) (simp add: uniqueAllocationsOnly_def)
  show ?thesis by (subst eq) (rule filterIndexed_unique)
qed

lemma plan_toSettle:
  "toSettle (plan self epoch maxE N L A)
   = firstOfEachKey allocation_id {}
       (filter (\<lambda>a. createdAtEpoch a < epoch - max 1 maxE + 1 \<or>
                  (signalAmount (subgraphDeployment a) < MINIMUM_SIGNAL \<and>
                   stakedTokens (subgraphDeployment a) < MINIMUM_STAKE)) A)"
  by (simp add: plan_def Let_def uniqueAllocationsOnly_filter settleAllocationsBeforeEpoch_def)

lemma plan_toRemove:
  "toRemove (plan self epoch maxE N L A)
   = firstOfEachKey bytes32 {} (filter (\<lambda>d. bytes32 d \<notin> bytes32 ` set N) L)"
  by (simp add: plan_def Let_def uniqueDeploymentsOnly_filter find_key_none)

lemma plan_toAllocate:
  "toAllocate (plan self epoch maxE N L A)
   = filter (\<lambda>d. bytes32 d \<noteq> bytes32 self)
       (firstOfEachKey bytes32 {}
          (filter (\<lambda>d. bytes32 d \<notin>
               (\<lambda>a. bytes32 (deployment_id (subgraphDeployment a))) ` set A) N))"
  by (simp add: plan_def Let_def uniqueDeploymentsOnly_filter find_key_none_sym)

lemma plan_toDeploy:
  "toDeploy (plan self epoch maxE N L A)
   = (let wanted = firstOfEachKey bytes32 {} (filter (\<lambda>d. bytes32 d \<notin> bytes32 ` set L) N)
      in if bytes32 self \<in> bytes32 ` set wanted then wanted else wanted @ [self])"
  by (simp add: plan_def Let_def uniqueDeploymentsOnly_filter find_key_none
      find_key_none_sym)

lemma toDeploy_keys:
  "bytes32 ` set (toDeploy (plan self epoch maxE N L A))
   = (bytes32 ` set N - bytes32 ` set L) \<union> {bytes32 self}"
  by (auto simp: plan_toDeploy Let_def firstOfEachKey_keys)

lemma toRemove_keys:
  "bytes32 ` set (toRemove (plan self epoch maxE N L A)) = bytes32 ` set L - bytes32 ` set N"
  by (auto simp: plan_toRemove firstOfEachKey_keys)

lemma toAllocate_keys:
  "bytes32 ` set (toAllocate (plan self epoch maxE N L A))
   = {b \<in> bytes32 ` set N.
        b \<notin> (\<lambda>a. bytes32 (deployment_id (subgraphDeployment a))) ` set A} - {bytes32 self}"
proof -
  have without: "bytes32 ` set (filter (\<lambda>d. bytes32 d \<noteq> k) xs) = bytes32 ` set xs - {k}"
    for k :: string and xs :: "SubgraphDeploymentID list"
    by auto
  have backed: "bytes32 ` set (filter (\<lambda>d. bytes32 d \<notin> S) xs)
      = {b \<in> bytes32 ` set xs. b \<notin> S}"
    for S :: "string set" and xs :: "SubgraphDeploymentID list"
    by auto
  show ?thesis
    unfolding plan_toAllocate without firstOfEachKey_keys backed by simp
qed

lemma distinct_map_filter_key: "distinct (map key xs) \<Longrightarrow> distinct (map key (filter p xs))"
  by (simp add: distinct_map_filter)

section \<open>Facts about the effects\<close>

lemma calls_append: "calls (xs @ ys) = calls xs @ calls ys"
  by (induction xs rule: calls.induct) auto

lemma firstUnhandled_append:
  "firstUnhandled (xs @ ys)
   = (case firstUnhandled xs of None \<Rightarrow> firstUnhandled ys | Some e \<Rightarrow> Some e)"
  by (induction xs rule: firstUnhandled.induct) auto

lemma firstRejected_append:
  "firstRejected (xs @ ys)
   = (case firstRejected xs of None \<Rightarrow> firstRejected ys | Some e \<Rightarrow> Some e)"
  by (induction xs rule: firstRejected.induct) auto

lemma firstRejected_clean: "list_all (\<lambda>ev. \<not> failure ev) evs \<Longrightarrow> firstRejected evs = None"
  by (induction evs rule: firstRejected.induct) auto

lemma infoLog_clean: "list_all infoLog evs \<Longrightarrow> list_all (\<lambda>ev. \<not> failure ev) evs"
  by (induction evs rule: firstRejected.induct) auto

lemma resolved_clean: "list_all (\<lambda>ev. \<not> failure ev) (map (\<lambda>x. Called (c x) None) xs)"
  by (induction xs) auto

lemma bnd_Return:
  "m w = (Return x, w', evs) \<Longrightarrow>
   bnd m f w = (case f x w' of (r, w'', evs') \<Rightarrow> (r, w'', evs @ evs'))"
  by (simp add: bnd_def)

lemma bnd_Throw: "m w = (Throw e, w', evs) \<Longrightarrow> bnd m f w = (Throw e, w', evs)"
  by (simp add: bnd_def)

lemma bnd_Crash: "m w = (Crash e, w', evs) \<Longrightarrow> bnd m f w = (Crash e, w', evs)"
  by (simp add: bnd_def)

lemma bnd_logger:
  "bnd (logger lvl msg data) f w
   = (case f () w of (r, w', evs) \<Rightarrow> (r, w', Log lvl msg data # evs))"
  by (simp add: bnd_def logger_def)

lemma forEach_perform:
  "(\<exists>w'. forEach (\<lambda>x. perform (c x) (g x)) xs w
           = (Return (), w', map (\<lambda>x. Called (c x) None) xs)) \<or>
   (\<exists>w' e k. k < length xs \<and>
      forEach (\<lambda>x. perform (c x) (g x)) xs w
        = (Throw e, w', map (\<lambda>x. Called (c x) None) (take k xs)
             @ [Called (c (xs ! k)) (Some e)]))"
proof (induction xs arbitrary: w)
  case Nil
  show ?case by (simp add: ret_def)
next
  case (Cons x xs)
  obtain outcome w1 where first: "g x w = (outcome, w1)" by (cases "g x w")
  show ?case
  proof (cases outcome)
    case (Inl e)
    with first have "forEach (\<lambda>x. perform (c x) (g x)) (x # xs) w
        = (Throw e, w1, map (\<lambda>x. Called (c x) None) (take 0 (x # xs))
             @ [Called (c ((x # xs) ! 0)) (Some e)])"
      by (simp add: bnd_def perform_def)
    then show ?thesis by blast
  next
    case (Inr u)
    with first have step: "forEach (\<lambda>x. perform (c x) (g x)) (x # xs) w
        = (case forEach (\<lambda>x. perform (c x) (g x)) xs w1 of
             (r, w'', evs') \<Rightarrow> (r, w'', Called (c x) None # evs'))"
      by (simp add: bnd_def perform_def)
    from Cons.IH [of w1] show ?thesis
    proof
      assume "\<exists>w'. forEach (\<lambda>x. perform (c x) (g x)) xs w1
           = (Return (), w', map (\<lambda>x. Called (c x) None) xs)"
      with step show ?thesis by auto
    next
      assume "\<exists>w' e k. k < length xs \<and>
        forEach (\<lambda>x. perform (c x) (g x)) xs w1
          = (Throw e, w', map (\<lambda>x. Called (c x) None) (take k xs)
               @ [Called (c (xs ! k)) (Some e)])"
      then obtain w' e k where k: "k < length xs"
        and run: "forEach (\<lambda>x. perform (c x) (g x)) xs w1
          = (Throw e, w', map (\<lambda>x. Called (c x) None) (take k xs)
               @ [Called (c (xs ! k)) (Some e)])"
        by blast
      from step run have "forEach (\<lambda>x. perform (c x) (g x)) (x # xs) w
          = (Throw e, w', map (\<lambda>x. Called (c x) None) (take (Suc k) (x # xs))
               @ [Called (c ((x # xs) ! Suc k)) (Some e)])"
        by simp
      moreover from k have "Suc k < length (x # xs)" by simp
      ultimately show ?thesis by blast
    qed
  qed
qed

subsection \<open>The tasks of the queue\<close>

lemma deployTask_run:
  "deployTask agent d w
   = (case ensure (indexer agent) (deploymentName d) d w of
        (Inl e, w') \<Rightarrow> (Return (), w', deployEvents d (Some e))
      | (Inr u, w') \<Rightarrow> (Return (), w', deployEvents d None))"
  by (simp add: deployTask_def bnd_def logger_def detached_def perform_def delay_def ret_def
      deployEvents_def split: prod.splits sum.splits)

lemma removeTask_run:
  "removeTask agent d w
   = (case remove (indexer agent) d w of
        (Inl e, w') \<Rightarrow> (Throw e, w', [Called (Remove d) (Some e)])
      | (Inr u, w') \<Rightarrow> (Return (), w', [Called (Remove d) None]))"
  by (simp add: removeTask_def perform_def split: prod.splits sum.splits)

lemma queue_add_deployTask:
  "\<exists>w' outcome. queue_add (deployTask agent d) w = (Return (), w', deployEvents d outcome)"
proof -
  obtain answer w1 where call: "ensure (indexer agent) (deploymentName d) d w = (answer, w1)"
    by (cases "ensure (indexer agent) (deploymentName d) d w")
  show ?thesis
  proof (cases answer)
    case (Inl e)
    with call have "queue_add (deployTask agent d) w = (Return (), w1, deployEvents d (Some e))"
      by (simp add: queue_add_def deployTask_run)
    then show ?thesis by (intro exI)
  next
    case (Inr u)
    with call have "queue_add (deployTask agent d) w = (Return (), w1, deployEvents d None)"
      by (simp add: queue_add_def deployTask_run)
    then show ?thesis by (intro exI)
  qed
qed

lemma queue_add_removeTask:
  "\<exists>w' outcome. queue_add (removeTask agent d) w = (Return (), w', removeEvents d outcome)"
proof -
  obtain answer w1 where call: "remove (indexer agent) d w = (answer, w1)"
    by (cases "remove (indexer agent) d w")
  show ?thesis
  proof (cases answer)
    case (Inl e)
    with call have "queue_add (removeTask agent d) w = (Return (), w1, removeEvents d (Some e))"
      by (simp add: queue_add_def removeTask_run removeEvents_def)
    then show ?thesis by (intro exI)
  next
    case (Inr u)
    with call have "queue_add (removeTask agent d) w = (Return (), w1, removeEvents d None)"
      by (simp add: queue_add_def removeTask_run removeEvents_def)
    then show ?thesis by (intro exI)
  qed
qed

lemma forEach_queue_add:
  assumes task: "\<And>d w. \<exists>w' outcome. queue_add (task d) w = (Return (), w', taskEvents d outcome)"
  shows "\<exists>w' outcomes. length outcomes = length ds \<and>
     forEach (\<lambda>d. queue_add (task d)) ds w
       = (Return (), w', concat (map2 taskEvents ds outcomes))"
proof (induction ds arbitrary: w)
  case Nil
  show ?case by (simp add: ret_def)
next
  case (Cons d ds)
  obtain w1 outcome where first:
    "queue_add (task d) w = (Return (), w1, taskEvents d outcome)"
    using task [of d w] by auto
  obtain w' outcomes where len: "length outcomes = length ds"
    and rest: "forEach (\<lambda>d. queue_add (task d)) ds w1
       = (Return (), w', concat (map2 taskEvents ds outcomes))"
    using Cons.IH [of w1] by auto
  from first rest have "forEach (\<lambda>d. queue_add (task d)) (d # ds) w
      = (Return (), w', concat (map2 taskEvents (d # ds) (outcome # outcomes)))"
    by (simp add: bnd_def)
  moreover from len have "length (outcome # outcomes) = length (d # ds)" by simp
  ultimately show ?case by blast
qed

lemma deployAndRemove_run:
  "\<exists>w' ensured removed.
     length ensured = length ds \<and> length removed = length rs \<and>
     deployAndRemove agent ds rs w
       = (afterDrain (concat (map2 deployEvents ds ensured)
            @ concat (map2 removeEvents rs removed)), w',
          concat (map2 deployEvents ds ensured) @ concat (map2 removeEvents rs removed))"
proof -
  obtain w1 ensured where len1: "length ensured = length ds"
    and run1: "forEach (\<lambda>d. queue_add (deployTask agent d)) ds w
       = (Return (), w1, concat (map2 deployEvents ds ensured))"
    using forEach_queue_add [of "deployTask agent" deployEvents ds w, OF queue_add_deployTask]
    by auto
  obtain w2 removed where len2: "length removed = length rs"
    and run2: "forEach (\<lambda>d. queue_add (removeTask agent d)) rs w1
       = (Return (), w2, concat (map2 removeEvents rs removed))"
    using forEach_queue_add [of "removeTask agent" removeEvents rs w1, OF queue_add_removeTask]
    by auto
  from run1 run2 have "deployAndRemove agent ds rs w
       = (afterDrain (concat (map2 deployEvents ds ensured)
            @ concat (map2 removeEvents rs removed)), w2,
          concat (map2 deployEvents ds ensured) @ concat (map2 removeEvents rs removed))"
    by (simp add: deployAndRemove_def queue_onIdle_def bnd_def afterDrain_def
        split: option.splits)
  with len1 len2 show ?thesis by blast
qed

lemma calls_infoLog: "list_all infoLog evs \<Longrightarrow> calls evs = []"
  by (induction evs rule: calls.induct) auto

lemma calls_resolved: "calls (map (\<lambda>x. Called (c x) None) xs) = map c xs"
  by (induction xs) auto

lemma calls_unhandledOf: "calls (unhandledOf outcome) = []"
  by (cases outcome) simp_all

lemma calls_deployEvents:
  "length outcomes = length ds \<Longrightarrow>
   calls (concat (map2 deployEvents ds outcomes)) = map (\<lambda>d. Ensure (deploymentName d) d) ds"
  by (induction ds outcomes rule: list_induct2')
    (auto simp: deployEvents_def calls_append calls_unhandledOf)

lemma calls_removeEvents:
  "length outcomes = length ds \<Longrightarrow>
   calls (concat (map2 removeEvents ds outcomes)) = map Remove ds"
  by (induction ds outcomes rule: list_induct2')
    (auto simp: removeEvents_def calls_append calls_unhandledOf)

lemma rejection_deployEvents:
  "firstRejected (deployEvents d outcome) = outcome"
  "firstUnhandled (deployEvents d outcome) = outcome"
  by (cases outcome; simp add: deployEvents_def)+

lemma rejection_removeEvents:
  "firstRejected (removeEvents d outcome) = outcome"
  "firstUnhandled (removeEvents d outcome) = outcome"
  by (cases outcome; simp add: removeEvents_def)+

lemma rejection_concat:
  "(\<And>b. b \<in> set bs \<Longrightarrow> firstRejected b = firstUnhandled b) \<Longrightarrow>
   firstRejected (concat bs) = firstUnhandled (concat bs)"
  by (induction bs)
    (simp_all add: firstRejected_append firstUnhandled_append split: option.splits)

lemma rejection_queue:
  "firstRejected (concat (map2 deployEvents ds ensured) @ concat (map2 removeEvents rs removed))
   = firstUnhandled (concat (map2 deployEvents ds ensured)
       @ concat (map2 removeEvents rs removed))"
proof -
  have "firstRejected (concat (map2 deployEvents ds ensured))
      = firstUnhandled (concat (map2 deployEvents ds ensured))"
    by (rule rejection_concat) (auto simp: rejection_deployEvents)
  moreover have "firstRejected (concat (map2 removeEvents rs removed))
      = firstUnhandled (concat (map2 removeEvents rs removed))"
    by (rule rejection_concat) (auto simp: rejection_removeEvents)
  ultimately show ?thesis
    by (simp add: firstRejected_append firstUnhandled_append split: option.splits)
qed

lemma take_Suc_map: "k < length xs \<Longrightarrow> map c (take k xs) @ [c (xs ! k)] = take (Suc k) (map c xs)"
  by (simp add: take_Suc_conv_app_nth take_map)

lemma resolve_run:
  "\<exists>logs. list_all infoLog logs \<and>
     resolve agent epoch maxE N L A w
       = (case bnd (forEach (\<lambda>allocation.
                  perform (Settle allocation) (settle (network agent) allocation))
                  (toSettle (plan (networkSubgraphDeployment agent) epoch maxE N L A)))
            (\<lambda>_. bnd (forEach (\<lambda>deployment.
                  perform (Allocate deployment) (allocate (network agent) deployment))
                  (toAllocate (plan (networkSubgraphDeployment agent) epoch maxE N L A)))
            (\<lambda>_. deployAndRemove agent
                  (toDeploy (plan (networkSubgraphDeployment agent) epoch maxE N L A))
                  (toRemove (plan (networkSubgraphDeployment agent) epoch maxE N L A)))) w of
           (r, w', evs) \<Rightarrow> (r, w', logs @ evs))"
proof -
  have shift: "(case (case x of (r, w', evs) \<Rightarrow> (r, w', ev # evs)) of
      (r, w', evs) \<Rightarrow> (r, w', pre @ evs))
      = (case x of (r, w', evs) \<Rightarrow> (r, w', (pre @ [ev]) @ evs))"
    for x :: "unit result \<times> 'a \<times> event list" and ev pre
    by (simp split: prod.splits)
  have start: "m w = (case m w of (r, w', evs) \<Rightarrow> (r, w', [] @ evs))"
    for m :: "('a, unit) act"
    by (simp split: prod.splits)
  show ?thesis
    unfolding resolve_def Let_def
    apply (subst start)
    apply (simp only: bnd_logger shift)
    apply (rule exI)
    apply (rule conjI)
     prefer 2
     apply (rule refl)
    apply simp
    done
qed

subsection \<open>Every run of a tick is orderly\<close>

lemma orderly_ret: "orderly_act (ret x)"
  by (simp add: orderly_act_def orderly_def ret_def)

lemma orderly_logger: "orderly_act (logger lvl msg data)"
  by (simp add: orderly_act_def orderly_def logger_def)

lemma orderly_perform: "\<not> queuedCall c \<Longrightarrow> orderly_act (perform c f)"
  by (auto simp: orderly_act_def orderly_def perform_def split: prod.splits sum.splits)

lemma orderly_actD: "orderly_act m \<Longrightarrow> m w = (r, w', evs) \<Longrightarrow> orderly r evs"
proof -
  assume act: "orderly_act m" and run: "m w = (r, w', evs)"
  from act have "orderly (fst (m w)) (snd (snd (m w)))"
    unfolding orderly_act_def by (rule spec)
  with run show ?thesis by simp
qed

lemma orderly_Return: "orderly (Return x) evs \<Longrightarrow> \<forall>ev \<in> set evs. \<not> failure ev"
  by (simp add: orderly_def list_all_iff)

lemma orderly_Throw:
  "orderly (Throw e) evs \<Longrightarrow>
   \<exists>c pre. \<not> queuedCall c \<and> evs = pre @ [Called c (Some e)] \<and> (\<forall>ev \<in> set pre. \<not> failure ev)"
  by (simp add: orderly_def list_all_iff)

lemma orderly_Crash:
  "orderly (Crash e) evs \<Longrightarrow>
   (\<exists>c. queuedCall c \<and> Called c (Some e) \<in> set evs) \<and>
   (\<forall>c e'. Called c (Some e') \<in> set evs \<longrightarrow> queuedCall c)"
  by (simp add: orderly_def)

lemma orderly_Pending: "\<not> orderly Pending evs"
  by (simp add: orderly_def)

lemma clean_not_rejected:
  "\<forall>ev \<in> set evs. \<not> failure ev \<Longrightarrow> Called c (Some e) \<notin> set evs"
proof
  assume clean: "\<forall>ev \<in> set evs. \<not> failure ev" and mem: "Called c (Some e) \<in> set evs"
  from clean mem have "\<not> failure (Called c (Some e))" by (rule bspec)
  then show False by simp
qed

lemma orderly_bnd:
  assumes m: "orderly_act m" and f: "\<And>x. orderly_act (f x)"
  shows "orderly_act (bnd m f)"
  unfolding orderly_act_def
proof
  fix w
  obtain r w1 evs where run: "m w = (r, w1, evs)" by (cases "m w")
  from m run have first: "orderly r evs" by (rule orderly_actD)
  show "orderly (fst (bnd m f w)) (snd (snd (bnd m f w)))"
  proof (cases r)
    case (Return x)
    obtain r2 w2 evs2 where run2: "f x w1 = (r2, w2, evs2)" by (cases "f x w1")
    from f [of x] run2 have second: "orderly r2 evs2" by (rule orderly_actD)
    from Return first have clean: "list_all (\<lambda>ev. \<not> failure ev) evs"
      by (simp add: orderly_def)
    then have none: "Called c (Some e) \<notin> set evs" for c e
      by (intro clean_not_rejected) (simp add: list_all_iff)
    have "orderly r2 (evs @ evs2)"
    proof (cases r2)
      case (Return y)
      with second clean show ?thesis by (simp add: orderly_def)
    next
      case (Throw e)
      with second obtain c pre where "\<not> queuedCall c" "evs2 = pre @ [Called c (Some e)]"
        "list_all (\<lambda>ev. \<not> failure ev) pre"
        by (auto simp: orderly_def)
      with clean have "\<not> queuedCall c \<and> evs @ evs2 = (evs @ pre) @ [Called c (Some e)] \<and>
          list_all (\<lambda>ev. \<not> failure ev) (evs @ pre)"
        by simp
      with Throw show ?thesis unfolding orderly_def by (simp only: result.case) blast
    next
      case Pending
      with second show ?thesis by (simp add: orderly_def)
    next
      case (Crash e)
      with second show ?thesis by (simp add: orderly_def none)
    qed
    with Return run run2 show ?thesis by (simp add: bnd_def)
  next
    case (Throw e)
    with run first show ?thesis by (simp add: bnd_def orderly_def)
  next
    case Pending
    with first show ?thesis by (simp add: orderly_def)
  next
    case (Crash e)
    with run first show ?thesis by (simp add: bnd_def orderly_def)
  qed
qed

lemma orderly_forEach: "(\<And>x. orderly_act (f x)) \<Longrightarrow> orderly_act (forEach f xs)"
  by (induction xs) (auto intro: orderly_ret orderly_bnd)

lemma accounted_append: "accounted xs \<Longrightarrow> accounted ys \<Longrightarrow> accounted (xs @ ys)"
  by (auto simp: accounted_def firstUnhandled_append split: option.splits)

lemma accounted_concat: "(\<And>b. b \<in> set bs \<Longrightarrow> accounted b) \<Longrightarrow> accounted (concat bs)"
  by (induction bs) (simp_all add: accounted_append, simp add: accounted_def)

lemma accounted_deployEvents: "accounted (deployEvents d outcome)"
  by (cases outcome) (simp_all add: accounted_def deployEvents_def)

lemma accounted_removeEvents: "accounted (removeEvents d outcome)"
  by (cases outcome) (simp_all add: accounted_def removeEvents_def)

lemma accounted_queue:
  "accounted (concat (map2 deployEvents ds ensured) @ concat (map2 removeEvents rs removed))"
proof (rule accounted_append)
  show "accounted (concat (map2 deployEvents ds ensured))"
    by (rule accounted_concat) (auto simp: accounted_deployEvents)
  show "accounted (concat (map2 removeEvents rs removed))"
    by (rule accounted_concat) (auto simp: accounted_removeEvents)
qed

lemma unhandledOf_no_call: "Called c outcome' \<notin> set (unhandledOf outcome)"
  by (cases outcome) simp_all

lemma queue_rejected_queued:
  "Called c (Some e)
     \<in> set (concat (map2 deployEvents ds ensured) @ concat (map2 removeEvents rs removed))
   \<Longrightarrow> queuedCall c"
  by (auto simp: deployEvents_def removeEvents_def unhandledOf_no_call)

lemma orderly_afterDrain:
  assumes "accounted evs" and "\<And>c e. Called c (Some e) \<in> set evs \<Longrightarrow> queuedCall c"
  shows "orderly (afterDrain evs) evs"
  using assms by (auto simp: accounted_def afterDrain_def orderly_def split: option.splits)

lemma orderly_deployAndRemove: "orderly_act (deployAndRemove agent ds rs)"
  unfolding orderly_act_def
proof
  fix w
  from deployAndRemove_run [of ds rs agent w]
  obtain w' ensured removed where "deployAndRemove agent ds rs w
       = (afterDrain (concat (map2 deployEvents ds ensured)
            @ concat (map2 removeEvents rs removed)), w',
          concat (map2 deployEvents ds ensured) @ concat (map2 removeEvents rs removed))"
    by auto
  moreover have "orderly
      (afterDrain (concat (map2 deployEvents ds ensured)
         @ concat (map2 removeEvents rs removed)))
      (concat (map2 deployEvents ds ensured) @ concat (map2 removeEvents rs removed))"
    by (rule orderly_afterDrain) (rule accounted_queue, rule queue_rejected_queued)
  ultimately show "orderly (fst (deployAndRemove agent ds rs w))
      (snd (snd (deployAndRemove agent ds rs w)))"
    by simp
qed

lemma orderly_resolve: "orderly_act (resolve agent epoch maxE N L A)"
  unfolding resolve_def Let_def
  by (intro orderly_bnd orderly_logger orderly_forEach orderly_perform
      orderly_deployAndRemove) simp_all

lemma orderly_synchronize: "orderly_act (synchronize agent)"
  unfolding synchronize_def
  by (intro orderly_bnd orderly_logger orderly_perform orderly_resolve) simp_all

lemma tick_run:
  "\<exists>r w' evs. tick agent w = (r, w', evs) \<and>
     (r = Return True \<or> (\<exists>e c. r = Crash e \<and> queuedCall c \<and> Called c (Some e) \<in> set evs)) \<and>
     (\<forall>c e. Called c (Some e) \<in> set evs \<and> \<not> queuedCall c \<longrightarrow>
        r = Return True \<and>
        (\<exists>pre. evs = pre @ [Called c (Some e),
           Log Warn ''Synchronization loop failed:'' (JObj [(''error'', JStr (message e))])]))"
proof -
  obtain r w1 evs where run: "synchronize agent w = (r, w1, evs)"
    by (cases "synchronize agent w")
  with orderly_synchronize have ord: "orderly r evs" by (rule orderly_actD)
  let ?warn = "\<lambda>e. Log Warn ''Synchronization loop failed:'' (JObj [(''error'', JStr (message e))])"
  show ?thesis
  proof (cases r)
    case (Return u)
    with run have tick: "tick agent w = (Return True, w1, evs)"
      by (simp add: tick_def try_catch_def bnd_def ret_def)
    from ord [unfolded Return] have clean: "\<forall>ev \<in> set evs. \<not> failure ev"
      by (rule orderly_Return)
    have outcome: "Return True = Return True \<or>
        (\<exists>e c. Return True = Crash e \<and> queuedCall c \<and> Called c (Some e) \<in> set evs)"
      by simp
    have caught: "\<forall>c e. Called c (Some e) \<in> set evs \<and> \<not> queuedCall c \<longrightarrow>
        Return True = Return True \<and> (\<exists>pre. evs = pre @ [Called c (Some e), ?warn e])"
    proof (intro allI impI)
      fix c e
      assume a: "Called c (Some e) \<in> set evs \<and> \<not> queuedCall c"
      then have mem: "Called c (Some e) \<in> set evs" by simp
      from clean have "Called c (Some e) \<notin> set evs" by (rule clean_not_rejected)
      with mem have False by simp
      then show "Return True = Return True \<and> (\<exists>pre. evs = pre @ [Called c (Some e), ?warn e])"
        by (rule FalseE)
    qed
    show ?thesis
      apply (rule exI [where x = "Return True"])
      apply (rule exI [where x = w1])
      apply (rule exI [where x = evs])
      apply (rule conjI [OF tick conjI [OF outcome caught]])
      done
  next
    case (Throw e)
    from ord [unfolded Throw] have "\<exists>c pre. \<not> queuedCall c \<and> evs = pre @ [Called c (Some e)] \<and>
        (\<forall>ev \<in> set pre. \<not> failure ev)"
      by (rule orderly_Throw)
    then obtain c pre where c: "\<not> queuedCall c" and evs: "evs = pre @ [Called c (Some e)]"
      and clean: "\<forall>ev \<in> set pre. \<not> failure ev"
      by (elim exE conjE)
    from Throw run have tick: "tick agent w = (Return True, w1, evs @ [?warn e])"
      by (simp add: tick_def try_catch_def bnd_def ret_def logger_def)
    have outcome: "Return True = Return True \<or>
        (\<exists>e' c. Return True = Crash e' \<and> queuedCall c \<and>
           Called c (Some e') \<in> set (evs @ [?warn e]))"
      by simp
    have caught: "\<forall>c' e'. Called c' (Some e') \<in> set (evs @ [?warn e]) \<and> \<not> queuedCall c' \<longrightarrow>
        Return True = Return True \<and>
        (\<exists>pre'. evs @ [?warn e] = pre' @ [Called c' (Some e'), ?warn e'])"
    proof (intro allI impI conjI)
      fix c' e'
      show "Return True = Return True" by (rule refl)
      assume a: "Called c' (Some e') \<in> set (evs @ [?warn e]) \<and> \<not> queuedCall c'"
      then have "Called c' (Some e') \<in> set evs" by simp
      then have "Called c' (Some e') \<in> set pre \<or> Called c' (Some e') = Called c (Some e)"
        unfolding evs by (simp add: disj_commute)
      moreover from clean have "Called c' (Some e') \<notin> set pre" by (rule clean_not_rejected)
      ultimately have same: "c' = c" "e' = e" by simp_all
      have eq: "evs @ [?warn e] = pre @ [Called c (Some e), ?warn e]"
        unfolding evs by simp
      show "\<exists>pre'. evs @ [?warn e] = pre' @ [Called c' (Some e'), ?warn e']"
        unfolding same by (rule exI [where x = pre], rule eq)
    qed
    show ?thesis
      apply (rule exI [where x = "Return True"])
      apply (rule exI [where x = w1])
      apply (rule exI [where x = "evs @ [?warn e]"])
      apply (rule conjI [OF tick conjI [OF outcome caught]])
      done
  next
    case Pending
    from ord [unfolded Pending] show ?thesis by (simp add: orderly_Pending)
  next
    case (Crash e)
    with run have tick: "tick agent w = (Crash e, w1, evs)"
      by (simp add: tick_def try_catch_def bnd_def)
    from ord [unfolded Crash]
    have "(\<exists>c. queuedCall c \<and> Called c (Some e) \<in> set evs) \<and>
        (\<forall>c e'. Called c (Some e') \<in> set evs \<longrightarrow> queuedCall c)"
      by (rule orderly_Crash)
    then obtain c where c: "queuedCall c" and mem: "Called c (Some e) \<in> set evs"
      and queued: "\<forall>c e'. Called c (Some e') \<in> set evs \<longrightarrow> queuedCall c"
      by (elim exE conjE)
    have outcome: "Crash e = Return True \<or>
        (\<exists>e' c. Crash e = Crash e' \<and> queuedCall c \<and> Called c (Some e') \<in> set evs)"
      apply (rule disjI2)
      apply (rule exI [where x = e])
      apply (rule exI [where x = c])
      apply (rule conjI [OF refl conjI [OF c mem]])
      done
    have caught: "\<forall>c e'. Called c (Some e') \<in> set evs \<and> \<not> queuedCall c \<longrightarrow>
        Crash e = Return True \<and> (\<exists>pre. evs = pre @ [Called c (Some e'), ?warn e'])"
    proof (intro allI impI)
      fix c' e'
      assume a: "Called c' (Some e') \<in> set evs \<and> \<not> queuedCall c'"
      then have mem': "Called c' (Some e') \<in> set evs" and nq: "\<not> queuedCall c'" by simp_all
      from queued [rule_format, OF mem'] nq have False by simp
      then show "Crash e = Return True \<and> (\<exists>pre. evs = pre @ [Called c' (Some e'), ?warn e'])"
        by (rule FalseE)
    qed
    show ?thesis
      apply (rule exI [where x = "Crash e"])
      apply (rule exI [where x = w1])
      apply (rule exI [where x = evs])
      apply (rule conjI [OF tick conjI [OF outcome caught]])
      done
  qed
qed

lemma loop_round:
  "f w = (Return True, w', evs) \<Longrightarrow>
   loop (Suc n) f interval w
     = (case loop n f interval w' of (r, w'', evs') \<Rightarrow> (r, w'', evs @ evs'))"
  by (simp add: bnd_def delay_def ret_def split: prod.splits)

subsection \<open>What a tick emits\<close>

lemma emitsD: "emits m P \<Longrightarrow> m w = (r, w', evs) \<Longrightarrow> list_all P evs"
proof -
  assume act: "emits m P" and run: "m w = (r, w', evs)"
  from act have "list_all P (snd (snd (m w)))"
    unfolding emits_def by (rule spec)
  with run show ?thesis by simp
qed

lemma emits_ret: "emits (ret x) P"
  by (simp add: emits_def ret_def)

lemma emits_logger: "P (Log lvl msg data) \<Longrightarrow> emits (logger lvl msg data) P"
  by (simp add: emits_def logger_def)

lemma emits_perform: "(\<And>outcome. P (Called c outcome)) \<Longrightarrow> emits (perform c f) P"
  by (simp add: emits_def perform_def split: prod.splits sum.splits)

lemma emits_detached:
  assumes "emits m P" and "\<And>e. P (Unhandled e)"
  shows "emits (detached m) P"
  unfolding emits_def
proof
  fix w
  obtain r w1 evs where run: "m w = (r, w1, evs)" by (cases "m w")
  from assms(1) run have "list_all P evs" by (rule emitsD)
  with run assms(2) show "list_all P (snd (snd (detached m w)))"
    by (cases r) (simp_all add: detached_def)
qed

lemma emits_queue_add:
  assumes "emits m P" and "\<And>e. P (Unhandled e)"
  shows "emits (queue_add m) P"
  unfolding emits_def
proof
  fix w
  obtain r w1 evs where run: "m w = (r, w1, evs)" by (cases "m w")
  from assms(1) run have "list_all P evs" by (rule emitsD)
  with run assms(2) show "list_all P (snd (snd (queue_add m w)))"
    by (cases r) (simp_all add: queue_add_def)
qed

lemma emits_queue_onIdle:
  assumes "emits m P"
  shows "emits (queue_onIdle m) P"
  unfolding emits_def
proof
  fix w
  obtain r w1 evs where run: "m w = (r, w1, evs)" by (cases "m w")
  from assms run have "list_all P evs" by (rule emitsD)
  with run show "list_all P (snd (snd (queue_onIdle m w)))"
    by (cases r) (simp_all add: queue_onIdle_def split: option.splits)
qed

lemma emits_bnd:
  assumes m: "emits m P" and f: "\<And>x. emits (f x) P"
  shows "emits (bnd m f) P"
  unfolding emits_def
proof
  fix w
  obtain r w1 evs where run: "m w = (r, w1, evs)" by (cases "m w")
  from m run have first: "list_all P evs" by (rule emitsD)
  show "list_all P (snd (snd (bnd m f w)))"
  proof (cases r)
    case (Return x)
    obtain r2 w2 evs2 where run2: "f x w1 = (r2, w2, evs2)" by (cases "f x w1")
    from f [of x] run2 have "list_all P evs2" by (rule emitsD)
    with first Return run run2 show ?thesis by (simp add: bnd_def)
  next
    case (Throw e)
    with run first show ?thesis by (simp add: bnd_def)
  next
    case Pending
    with run first show ?thesis by (simp add: bnd_def)
  next
    case (Crash e)
    with run first show ?thesis by (simp add: bnd_def)
  qed
qed

lemma emits_try_catch:
  assumes m: "emits m P" and h: "\<And>e. emits (h e) P"
  shows "emits (try_catch m h) P"
  unfolding emits_def
proof
  fix w
  obtain r w1 evs where run: "m w = (r, w1, evs)" by (cases "m w")
  from m run have first: "list_all P evs" by (rule emitsD)
  show "list_all P (snd (snd (try_catch m h w)))"
  proof (cases r)
    case (Throw e)
    obtain r2 w2 evs2 where run2: "h e w1 = (r2, w2, evs2)" by (cases "h e w1")
    from h [of e] run2 have "list_all P evs2" by (rule emitsD)
    with first Throw run run2 show ?thesis by (simp add: try_catch_def)
  next
    case (Return x)
    with run first show ?thesis by (simp add: try_catch_def)
  next
    case Pending
    with run first show ?thesis by (simp add: try_catch_def)
  next
    case (Crash e)
    with run first show ?thesis by (simp add: try_catch_def)
  qed
qed

lemma emits_forEach: "(\<And>x. x \<in> set xs \<Longrightarrow> emits (f x) P) \<Longrightarrow> emits (forEach f xs) P"
proof (induction xs)
  case Nil
  show ?case by (simp add: emits_ret)
next
  case (Cons x xs)
  have "emits (f x) P" by (rule Cons.prems) simp
  moreover have "emits (forEach f xs) P" by (rule Cons.IH) (simp add: Cons.prems)
  ultimately show ?case by (simp add: emits_bnd)
qed

lemma emits_loop: "emits f P \<Longrightarrow> emits (loop n f interval) P"
proof (induction n)
  case 0
  show ?case by (simp add: emits_def)
next
  case (Suc n)
  then show ?case
    by (auto simp: delay_def intro!: emits_bnd emits_ret)
qed

lemma keepsSelf_simps [simp]:
  "keepsSelf self (Log lvl msg data)"
  "keepsSelf self (Unhandled e)"
  "keepsSelf self (Called (Remove d) outcome) \<longleftrightarrow> bytes32 d \<noteq> bytes32 self"
  "keepsSelf self (Called (Settle a) outcome)"
  "keepsSelf self (Called (Allocate d) outcome)"
  "keepsSelf self (Called (Ensure name d) outcome)"
  "keepsSelf self (Called CurrentEpoch outcome)"
  "keepsSelf self (Called MaxAllocationEpochs outcome)"
  "keepsSelf self (Called SubgraphDeployments outcome)"
  "keepsSelf self (Called (IndexerRules merged) outcome)"
  "keepsSelf self (Called SubgraphDeploymentsWorthIndexing outcome)"
  "keepsSelf self (Called ActiveAllocations outcome)"
  by (simp_all add: keepsSelf_def)

lemma self_not_removed:
  "bytes32 self \<notin> bytes32 ` set (toRemove (plan self epoch maxE (N @ [self]) L A))"
  by (simp add: toRemove_keys)

lemma emits_resolve:
  assumes "\<And>d. d \<in> set (toRemove (plan (networkSubgraphDeployment agent) epoch maxE N L A))
      \<Longrightarrow> bytes32 d \<noteq> bytes32 self"
  shows "emits (resolve agent epoch maxE N L A) (keepsSelf self)"
  unfolding resolve_def Let_def deployAndRemove_def deployTask_def removeTask_def delay_def
  by (intro emits_bnd emits_logger emits_forEach emits_perform emits_queue_onIdle
      emits_queue_add emits_detached emits_ret) (simp_all add: assms)

lemma emits_tick:
  "emits (tick agent) (keepsSelf (networkSubgraphDeployment agent))"
proof -
  have "bytes32 d \<noteq> bytes32 (networkSubgraphDeployment agent)"
    if "d \<in> set (toRemove (plan (networkSubgraphDeployment agent) epoch maxE
        (N @ [networkSubgraphDeployment agent]) L A))" for d epoch maxE N L A
    using that self_not_removed [of "networkSubgraphDeployment agent" epoch maxE N L A]
    by (metis imageI)
  then show ?thesis
    unfolding tick_def synchronize_def
    by (intro emits_bnd emits_try_catch emits_logger emits_perform emits_resolve emits_ret)
      simp_all
qed

subsection \<open>One round of each loop\<close>

lemma syncStatusPoll_unhealthy:
  assumes "indexingStatus (indexer agent) (networkSubgraphDeployment agent) w = (Inr status, w')"
    and "health status \<noteq> ''healthy''"
  shows "\<exists>e. syncStatusPoll agent w = (Throw e, w', pollEvents (networkSubgraphDeployment agent)) \<and>
     (\<forall>fatal. fatalError status = Some fatal \<longrightarrow>
        message e = ''Failed to index network subgraph deployment '' @ [CHR 0x27]
          @ toString (networkSubgraphDeployment agent) @ [CHR 0x27] @ '': ''
          @ fatal_message fatal)"
  using assms
  by (cases "fatalError status")
    (simp_all add: syncStatusPoll_def bnd_def logger_def perform_def throw_def pollEvents_def)

lemma syncStatusPoll_synced:
  assumes "indexingStatus (indexer agent) (networkSubgraphDeployment agent) w = (Inr status, w')"
    and "health status = ''healthy''" and "synced status"
  shows "syncStatusPoll agent w = (Return False, w', pollEvents (networkSubgraphDeployment agent))"
  using assms
  by (simp add: syncStatusPoll_def bnd_def logger_def perform_def ret_def pollEvents_def)

lemma syncStatusPoll_syncing:
  assumes "indexingStatus (indexer agent) (networkSubgraphDeployment agent) w = (Inr status, w')"
    and "health status = ''healthy''" and "\<not> synced status" and "chains status \<noteq> []"
  shows "syncStatusPoll agent w = (Return True, w',
     pollEvents (networkSubgraphDeployment agent) @
     [Log Info ''Network subgraph is synced''
        (JObj [(''latestBlock'', JNum (latestBlock (hd (chains status)))),
               (''chainHeadBlock'', JNum (chainHeadBlock (hd (chains status))))])])"
  using assms
  by (cases "chains status")
    (simp_all add: syncStatusPoll_def bnd_def logger_def perform_def ret_def pollEvents_def)

lemma loop_stop:
  "f w = (Return False, w', evs) \<Longrightarrow> loop (Suc n) f interval w = (Return (), w', evs)"
  by (simp add: bnd_def ret_def)

lemma loop_throw:
  "f w = (Throw e, w', evs) \<Longrightarrow> loop (Suc n) f interval w = (Throw e, w', evs)"
  by (simp add: bnd_def)

lemma example_plan:
  "toSettle (plan SELF 100 28 [X, SELF] [Y] [oldAllocation]) = [oldAllocation]"
  "toAllocate (plan SELF 100 28 [X, SELF] [Y] [oldAllocation]) = []"
  "toDeploy (plan SELF 100 28 [X, SELF] [Y] [oldAllocation]) = [X, SELF]"
  "toRemove (plan SELF 100 28 [X, SELF] [Y] [oldAllocation]) = [Y]"
  by (simp_all add: plan_toSettle plan_toAllocate plan_toDeploy plan_toRemove example_defs)

lemma example_tick_settle_failed:
  "Called (Settle oldAllocation) (Some (Error ''settle failed''))
     \<in> set (snd (snd (tick (exampleAgent (\<lambda>w. syncedStatus) True False) 0)))"
  by (simp add: tick_def synchronize_def resolve_def try_catch_def bnd_def logger_def
      perform_def ret_def example_plan exampleAgent_def exampleIndexer_def exampleNetwork_def)

section \<open>Properties of the plan\<close>

text \<open>
  Claim C1. An allocation is identified by its allocation id, which is unique (section 3
  of the spec). For every list of allocations and all integers \<open>epoch\<close> and
  \<open>maxEpochsPerAllocation\<close>, the allocation of a given id is a member of \<open>toSettle\<close>
  if and only if the list holds an allocation of that id whose \<open>createdAtEpoch\<close> is
  less than \<open>settleBeforeEpoch = epoch - max(1, maxEpochsPerAllocation) + 1\<close>, or whose
  deployment has its \<open>signalAmount\<close> below \<open>MINIMUM_SIGNAL\<close> and its \<open>stakedTokens\<close>
  below \<open>MINIMUM_STAKE\<close> at once; either trigger is enough. Every entry of
  \<open>toSettle\<close> is an allocation of the list that meets one of the two triggers. Record
  by record: an allocation whose id no other entry of the list carries is a member of
  \<open>toSettle\<close> if and only if it is in the list and meets one of the two triggers.
\<close>

theorem toSettle_iff_old_or_not_worth_it:
  fixes self :: SubgraphDeploymentID and epoch maxEpochsPerAllocation :: int
    and N L :: "SubgraphDeploymentID list" and allocations :: "Allocation list"
  defines "due \<equiv> \<lambda>a. createdAtEpoch a < epoch - max 1 maxEpochsPerAllocation + 1 \<or>
      (signalAmount (subgraphDeployment a) < MINIMUM_SIGNAL \<and>
       stakedTokens (subgraphDeployment a) < MINIMUM_STAKE)"
  defines "settled \<equiv> toSettle (plan self epoch maxEpochsPerAllocation N L allocations)"
  shows "(\<forall>i. i \<in> allocation_id ` set settled \<longleftrightarrow>
        (\<exists>a \<in> set allocations. allocation_id a = i \<and> due a)) \<and>
    set settled \<subseteq> {a \<in> set allocations. due a} \<and>
    (\<forall>a. (\<forall>b \<in> set allocations. allocation_id b = allocation_id a \<longrightarrow> b = a) \<longrightarrow>
      (a \<in> set settled \<longleftrightarrow> a \<in> set allocations \<and> due a))"
proof -
  have settled: "settled = firstOfEachKey allocation_id {} (filter due allocations)"
    unfolding settled_def due_def by (rule plan_toSettle)
  have sub: "set settled \<subseteq> {a \<in> set allocations. due a}"
    unfolding settled using firstOfEachKey_subset [of allocation_id "{}"] by fastforce
  have ids: "allocation_id ` set settled = allocation_id ` {a \<in> set allocations. due a}"
    unfolding settled by (simp add: firstOfEachKey_keys)
  have iff: "a \<in> set settled \<longleftrightarrow> a \<in> set allocations \<and> due a"
    if only: "\<forall>b \<in> set allocations. allocation_id b = allocation_id a \<longrightarrow> b = a" for a
  proof
    assume "a \<in> set settled"
    with sub show "a \<in> set allocations \<and> due a" by auto
  next
    assume a: "a \<in> set allocations \<and> due a"
    then have "allocation_id a \<in> allocation_id ` {a \<in> set allocations. due a}" by simp
    then have "allocation_id a \<in> allocation_id ` set settled" by (simp only: ids)
    then obtain b where b: "b \<in> set settled" and same: "allocation_id b = allocation_id a"
      by auto
    from b sub have "b \<in> set allocations" by auto
    with only same have "b = a" by simp
    with b show "a \<in> set settled" by simp
  qed
  have by_id: "i \<in> allocation_id ` set settled \<longleftrightarrow>
      (\<exists>a \<in> set allocations. allocation_id a = i \<and> due a)" for i
    unfolding ids by auto
  from by_id sub iff show ?thesis by (intro conjI allI impI)
qed

theorem toSettle_iff_old_or_not_worth_it_witness:
  "poorAllocation \<in> set (toSettle (plan SELF 100 28 [X, SELF] [Y]
      [oldAllocation, poorAllocation, freshAllocation, poorAllocation, twinAllocation])) \<and>
   freshAllocation \<notin> set (toSettle (plan SELF 100 28 [X, SELF] [Y]
      [oldAllocation, poorAllocation, freshAllocation, poorAllocation, twinAllocation])) \<and>
   allocation_id twinAllocation \<in> allocation_id ` set (toSettle (plan SELF 100 28 [X, SELF] [Y]
      [oldAllocation, poorAllocation, freshAllocation, poorAllocation, twinAllocation]))"
proof -
  let ?allocations =
    "[oldAllocation, poorAllocation, freshAllocation, poorAllocation, twinAllocation]"
  let ?settled = "toSettle (plan SELF 100 28 [X, SELF] [Y] ?allocations)"
  let ?due = "\<lambda>a. createdAtEpoch a < 100 - max 1 28 + 1 \<or>
      (signalAmount (subgraphDeployment a) < MINIMUM_SIGNAL \<and>
       stakedTokens (subgraphDeployment a) < MINIMUM_STAKE)"
  note C1 = toSettle_iff_old_or_not_worth_it [where allocations = ?allocations
      and epoch = 100 and maxEpochsPerAllocation = 28 and self = SELF and N = "[X, SELF]"
      and L = "[Y]"]
  from C1 have iff: "(\<forall>b \<in> set ?allocations. allocation_id b = allocation_id a \<longrightarrow> b = a) \<longrightarrow>
      (a \<in> set ?settled \<longleftrightarrow> a \<in> set ?allocations \<and> ?due a)" for a
    by (elim conjE allE [where x = a])
  from C1 have by_id: "i \<in> allocation_id ` set ?settled \<longleftrightarrow>
      (\<exists>a \<in> set ?allocations. allocation_id a = i \<and> ?due a)" for i
    by (elim conjE allE [where x = i])
  have only_poor: "\<forall>b \<in> set ?allocations.
      allocation_id b = allocation_id poorAllocation \<longrightarrow> b = poorAllocation"
    by (simp add: example_defs)
  have only_fresh: "\<forall>b \<in> set ?allocations.
      allocation_id b = allocation_id freshAllocation \<longrightarrow> b = freshAllocation"
    by (simp add: example_defs)
  have poor: "poorAllocation \<in> set ?settled"
    unfolding mp [OF iff only_poor] by (simp add: example_defs)
  have fresh: "freshAllocation \<notin> set ?settled"
    unfolding mp [OF iff only_fresh] by (simp add: example_defs)
  have "oldAllocation \<in> set ?allocations \<and>
      allocation_id oldAllocation = allocation_id twinAllocation \<and> ?due oldAllocation"
    by (simp add: example_defs)
  then have "\<exists>a \<in> set ?allocations.
      allocation_id a = allocation_id twinAllocation \<and> ?due a"
    by (intro bexI [where x = oldAllocation]) simp_all
  then have twin: "allocation_id twinAllocation \<in> allocation_id ` set ?settled"
    by (simp only: by_id)
  from poor fresh twin show ?thesis by (intro conjI)
qed

text \<open>
  Claim C2. Whatever the network-desired list, the locally indexed list and the
  allocations are, the self-tracking deployment (the network subgraph deployment) is in
  \<open>toDeploy\<close> and is not in \<open>toAllocate\<close>, deployments being compared by their
  \<open>bytes32\<close> form.
\<close>

theorem self_always_deployed_never_allocated:
  "bytes32 self \<in> bytes32 ` set (toDeploy (plan self epoch maxE N L A)) \<and>
   bytes32 self \<notin> bytes32 ` set (toAllocate (plan self epoch maxE N L A))"
  by (simp add: toDeploy_keys toAllocate_keys)

text \<open>
  Claim C3. When the network-desired deployments \<open>N\<close>, which include the self-tracking
  deployment, and the locally indexed deployments \<open>L\<close> have no \<open>bytes32\<close> form in common,
  \<open>toDeploy\<close> is \<open>N - L\<close> and \<open>toRemove\<close> is \<open>L - N\<close> as sets of \<open>bytes32\<close> forms, and the
  two have no deployment in common.
\<close>

theorem toDeploy_toRemove_set_difference:
  assumes "bytes32 ` set N \<inter> bytes32 ` set L = {}"
    and "bytes32 self \<in> bytes32 ` set N"
  shows "bytes32 ` set (toDeploy (plan self epoch maxE N L A))
      = bytes32 ` set N - bytes32 ` set L \<and>
    bytes32 ` set (toRemove (plan self epoch maxE N L A))
      = bytes32 ` set L - bytes32 ` set N \<and>
    bytes32 ` set (toDeploy (plan self epoch maxE N L A))
      \<inter> bytes32 ` set (toRemove (plan self epoch maxE N L A)) = {}"
proof -
  from assms have "bytes32 self \<in> bytes32 ` set N - bytes32 ` set L" by blast
  then have deploy: "bytes32 ` set (toDeploy (plan self epoch maxE N L A))
      = bytes32 ` set N - bytes32 ` set L"
    by (simp add: toDeploy_keys insert_absorb)
  have remove: "bytes32 ` set (toRemove (plan self epoch maxE N L A))
      = bytes32 ` set L - bytes32 ` set N"
    by (rule toRemove_keys)
  have "(bytes32 ` set N - bytes32 ` set L) \<inter> (bytes32 ` set L - bytes32 ` set N) = {}"
    by blast
  with deploy remove show ?thesis by simp
qed

theorem toDeploy_toRemove_set_difference_witness:
  "bytes32 ` set (toDeploy (plan SELF 100 28 [X, SELF] [Y] [])) = {''0x01'', ''0x00''} \<and>
   bytes32 ` set (toRemove (plan SELF 100 28 [X, SELF] [Y] [])) = {''0x02''}"
proof -
  have disj: "bytes32 ` set [X, SELF] \<inter> bytes32 ` set [Y] = {}"
    by (simp add: example_defs)
  have self: "bytes32 SELF \<in> bytes32 ` set [X, SELF]"
    by simp
  have deploy: "bytes32 ` set [X, SELF] - bytes32 ` set [Y] = {''0x01'', ''0x00''}"
    by (auto simp: example_defs)
  have remove: "bytes32 ` set [Y] - bytes32 ` set [X, SELF] = {''0x02''}"
    by (auto simp: example_defs)
  from toDeploy_toRemove_set_difference [OF disj self, of 100 28 "[]"]
  show ?thesis unfolding deploy remove by simp
qed

text \<open>
  Claim C4. \<open>toAllocate\<close> holds exactly the network-desired deployments that no allocation
  of the list backs, the self-tracking deployment left out: deployments are compared by
  their \<open>bytes32\<close> form, against the \<open>bytes32\<close> form of the deployment of each
  allocation, and every entry of \<open>toAllocate\<close> is an entry of the network-desired list.
\<close>

theorem toAllocate_unallocated_without_self:
  "bytes32 ` set (toAllocate (plan self epoch maxE N L A))
     = {b \<in> bytes32 ` set N.
          b \<notin> (\<lambda>a. bytes32 (deployment_id (subgraphDeployment a))) ` set A}
       - {bytes32 self} \<and>
   set (toAllocate (plan self epoch maxE N L A)) \<subseteq> set N"
proof -
  have "set (toAllocate (plan self epoch maxE N L A)) \<subseteq> set N"
    unfolding plan_toAllocate
    using firstOfEachKey_subset [of bytes32 "{}"] by fastforce
  then show ?thesis by (simp add: toAllocate_keys)
qed

text \<open>
  Claim C5. None of the four lists of a plan holds two entries of the same identity:
  the \<open>bytes32\<close> forms in \<open>toDeploy\<close>, in \<open>toRemove\<close> and in \<open>toAllocate\<close> are pairwise
  different, and so are the allocation ids in \<open>toSettle\<close>, whatever is repeated in the
  input lists; adding the self-tracking deployment to \<open>toDeploy\<close> keeps this.
\<close>

theorem plan_without_duplicates:
  "distinct (map bytes32 (toDeploy (plan self epoch maxE N L A))) \<and>
   distinct (map bytes32 (toRemove (plan self epoch maxE N L A))) \<and>
   distinct (map bytes32 (toAllocate (plan self epoch maxE N L A))) \<and>
   distinct (map allocation_id (toSettle (plan self epoch maxE N L A)))"
proof -
  have deploy: "distinct (map bytes32 (toDeploy (plan self epoch maxE N L A)))"
    by (simp add: plan_toDeploy Let_def firstOfEachKey_distinct)
  have remove: "distinct (map bytes32 (toRemove (plan self epoch maxE N L A)))"
    by (simp add: plan_toRemove firstOfEachKey_distinct)
  have allocate: "distinct (map bytes32 (toAllocate (plan self epoch maxE N L A)))"
    unfolding plan_toAllocate
    by (rule distinct_map_filter_key) (rule firstOfEachKey_distinct)
  have settle: "distinct (map allocation_id (toSettle (plan self epoch maxE N L A)))"
    by (simp add: plan_toSettle firstOfEachKey_distinct)
  from deploy remove allocate settle show ?thesis by simp
qed

section \<open>Properties of the two loops\<close>

text \<open>
  Claim C9. The side effects of \<open>resolve\<close>, and so of a tick, come in one fixed order.
  When no \<open>settle\<close> or \<open>allocate\<close> call is rejected, the calls made are: \<open>settle\<close> for
  every allocation of \<open>toSettle\<close> in turn, then \<open>allocate\<close> for every deployment of
  \<open>toAllocate\<close> in turn, and only then the calls of the tasks handed to the queue,
  \<open>ensure\<close> for every deployment of \<open>toDeploy\<close> and \<open>remove\<close> for every deployment of
  \<open>toRemove\<close>. All of them are made before \<open>resolve\<close> comes to its end: it returns
  when none of them was rejected, and otherwise the process ends at the drain of the
  queue, with the error of the first call that was rejected. When a \<open>settle\<close> or
  \<open>allocate\<close> call is rejected, \<open>resolve\<close> throws its error, the rejected call is the
  last event, and the calls made are the settle-then-allocate sequence up to that call:
  nothing has been handed to the queue.
\<close>

theorem settle_then_allocate_then_queue:
  fixes agent :: "('w, 'r) Agent" and epoch maxE :: int
    and N L :: "SubgraphDeploymentID list" and A :: "Allocation list" and w :: 'w
  defines "p \<equiv> plan (networkSubgraphDeployment agent) epoch maxE N L A"
  defines "awaited \<equiv> map Settle (toSettle p) @ map Allocate (toAllocate p)"
  defines "queued \<equiv> map (\<lambda>d. Ensure (deploymentName d) d) (toDeploy p)
      @ map Remove (toRemove p)"
  shows "(\<exists>w' evs. resolve agent epoch maxE N L A w
              = ((case firstRejected evs of None \<Rightarrow> Return () | Some e \<Rightarrow> Crash e),
                 w', evs) \<and>
            calls evs = awaited @ queued) \<or>
         (\<exists>w' evs e k. k < length awaited \<and>
            resolve agent epoch maxE N L A w = (Throw e, w', evs) \<and>
            calls evs = take (Suc k) awaited \<and>
            last evs = Called (awaited ! k) (Some e))"
proof -
  let ?settle = "forEach (\<lambda>allocation.
      perform (Settle allocation) (settle (network agent) allocation)) (toSettle p)"
  let ?allocate = "forEach (\<lambda>deployment.
      perform (Allocate deployment) (allocate (network agent) deployment)) (toAllocate p)"
  let ?rest = "\<lambda>_ :: unit. bnd ?allocate (\<lambda>_. deployAndRemove agent (toDeploy p) (toRemove p))"
  obtain logs where logs: "list_all infoLog logs"
    and run: "resolve agent epoch maxE N L A w
      = (case bnd ?settle ?rest w of (r, w', evs) \<Rightarrow> (r, w', logs @ evs))"
    using resolve_run [of agent epoch maxE N L A w] unfolding p_def by auto
  from forEach_perform [of Settle "settle (network agent)" "toSettle p" w]
  consider (settled) w1 where
      "?settle w = (Return (), w1, map (\<lambda>x. Called (Settle x) None) (toSettle p))"
    | (failed) w1 e k where "k < length (toSettle p)"
      "?settle w = (Throw e, w1, map (\<lambda>x. Called (Settle x) None) (take k (toSettle p))
           @ [Called (Settle (toSettle p ! k)) (Some e)])"
    by auto
  then show ?thesis
  proof cases
    case failed
    from failed(2) run have "resolve agent epoch maxE N L A w
        = (Throw e, w1, logs @ map (\<lambda>x. Called (Settle x) None) (take k (toSettle p))
           @ [Called (Settle (toSettle p ! k)) (Some e)])"
      by (simp add: bnd_Throw)
    moreover from failed(1) have "k < length awaited" by (simp add: awaited_def)
    moreover from failed(1) have "calls (logs @ map (\<lambda>x. Called (Settle x) None) (take k (toSettle p))
           @ [Called (Settle (toSettle p ! k)) (Some e)]) = take (Suc k) awaited"
      by (simp add: calls_append calls_infoLog [OF logs] calls_resolved awaited_def
          take_Suc_map)
    moreover from failed(1) have "last (logs @ map (\<lambda>x. Called (Settle x) None) (take k (toSettle p))
           @ [Called (Settle (toSettle p ! k)) (Some e)]) = Called (awaited ! k) (Some e)"
      by (simp add: awaited_def nth_append)
    ultimately show ?thesis by blast
  next
    case settled
    from forEach_perform [of Allocate "allocate (network agent)" "toAllocate p" w1]
    consider (allocated) w2 where
        "?allocate w1 = (Return (), w2, map (\<lambda>x. Called (Allocate x) None) (toAllocate p))"
      | (failed) w2 e k where "k < length (toAllocate p)"
        "?allocate w1 = (Throw e, w2,
           map (\<lambda>x. Called (Allocate x) None) (take k (toAllocate p))
             @ [Called (Allocate (toAllocate p ! k)) (Some e)])"
      by auto
    then show ?thesis
    proof cases
      case failed
      let ?evs = "logs @ map (\<lambda>x. Called (Settle x) None) (toSettle p)
          @ map (\<lambda>x. Called (Allocate x) None) (take k (toAllocate p))
          @ [Called (Allocate (toAllocate p ! k)) (Some e)]"
      from settled failed(2) run have "resolve agent epoch maxE N L A w = (Throw e, w2, ?evs)"
        by (simp add: bnd_Return bnd_Throw)
      moreover from failed(1) have "length (toSettle p) + k < length awaited"
        by (simp add: awaited_def)
      moreover from failed(1) have "calls ?evs = take (Suc (length (toSettle p) + k)) awaited"
        by (simp add: calls_append calls_infoLog [OF logs] calls_resolved awaited_def
            take_Suc_map)
      moreover have "last ?evs = Called (awaited ! (length (toSettle p) + k)) (Some e)"
        using failed(1) by (simp add: awaited_def nth_append)
      ultimately show ?thesis by blast
    next
      case allocated
      obtain w3 ensured removed where len: "length ensured = length (toDeploy p)"
          "length removed = length (toRemove p)"
        and queue: "deployAndRemove agent (toDeploy p) (toRemove p) w2
          = (afterDrain (concat (map2 deployEvents (toDeploy p) ensured)
               @ concat (map2 removeEvents (toRemove p) removed)), w3,
             concat (map2 deployEvents (toDeploy p) ensured)
               @ concat (map2 removeEvents (toRemove p) removed))"
        using deployAndRemove_run [of "toDeploy p" "toRemove p" agent w2] by auto
      let ?queue = "concat (map2 deployEvents (toDeploy p) ensured)
          @ concat (map2 removeEvents (toRemove p) removed)"
      let ?before = "logs @ map (\<lambda>x. Called (Settle x) None) (toSettle p)
          @ map (\<lambda>x. Called (Allocate x) None) (toAllocate p)"
      have "list_all (\<lambda>ev. \<not> failure ev) ?before"
        using infoLog_clean [OF logs] by (simp add: resolved_clean)
      then have "firstRejected ?before = None"
        by (rule firstRejected_clean)
      then have "firstRejected (?before @ ?queue) = firstUnhandled ?queue"
        by (simp only: firstRejected_append [of ?before] option.case rejection_queue)
      then have ends: "afterDrain ?queue
          = (case firstRejected (?before @ ?queue) of None \<Rightarrow> Return () | Some e \<Rightarrow> Crash e)"
        by (simp only: afterDrain_def)
      from settled allocated queue run
      have "resolve agent epoch maxE N L A w = (afterDrain ?queue, w3, ?before @ ?queue)"
        by (simp add: bnd_Return)
      then have run': "resolve agent epoch maxE N L A w
          = ((case firstRejected (?before @ ?queue) of None \<Rightarrow> Return () | Some e \<Rightarrow> Crash e),
             w3, ?before @ ?queue)"
        by (simp only: ends)
      have order: "calls (?before @ ?queue) = awaited @ queued"
        using len
        by (simp add: calls_append calls_infoLog [OF logs] calls_resolved awaited_def
            queued_def calls_deployEvents calls_removeEvents)
      show ?thesis
        apply (rule disjI1)
        apply (rule exI [where x = w3])
        apply (rule exI [where x = "?before @ ?queue"])
        apply (rule conjI [OF run' order])
        done
    qed
  qed
qed

text \<open>
  Claim C7 fails in the code for a task whose call is rejected. Take the example agent
  whose indexer rejects \<open>remove\<close>. The remove task for \<open>Y\<close> throws the error of the
  call: it catches nothing and logs nothing. The queue phase of \<open>resolve\<close>, with \<open>X\<close> to
  deploy and \<open>Y\<close> to remove, runs the deploy task and makes the \<open>remove\<close> call; its
  events hold no entry about the error; and the rejection, which nothing handles, ends
  the process at the drain of the queue, so that the drain does not complete and
  \<open>resolve\<close> never returns.
\<close>

theorem rejected_remove_is_not_caught_in_the_task:
  "removeTask (exampleAgent (\<lambda>w. syncedStatus) False True) Y 0
     = (Throw (Error ''remove failed''), 0,
        [Called (Remove Y) (Some (Error ''remove failed''))]) \<and>
   deployAndRemove (exampleAgent (\<lambda>w. syncedStatus) False True) [X] [Y] 0
     = (Crash (Error ''remove failed''), 0,
        [Log Info ''Begin indexing subgraph deployment''
           (JObj [(''name'', JStr (deploymentName X)), (''deployment'', JStr (display X))]),
         Called (Ensure (deploymentName X) X) None,
         Called (Remove Y) (Some (Error ''remove failed'')),
         Unhandled (Error ''remove failed'')])"
  by (simp add: removeTask_def deployAndRemove_def deployTask_def queue_add_def
      queue_onIdle_def detached_def delay_def bnd_def logger_def perform_def ret_def
      exampleAgent_def exampleIndexer_def)

text \<open>
  What a tick does with the errors of the calls it awaits, which are the calls of the
  gather phase and, in the execution of the plan, \<open>settle\<close> and \<open>allocate\<close>; the
  computation of the plan makes no call and raises no error. When such a call is
  rejected, the error is caught at the tick boundary: the rejected call is the last thing
  the tick did, the tick ends with the warning \<open>Synchronization loop failed:\<close> that
  carries the message of the error, and it returns \<open>true\<close>, so that the loop goes on to
  the next tick from the world the tick left. A tick never throws: it returns \<open>true\<close>,
  unless the process has ended under it with the error of a rejected call of a queued
  task.
\<close>

theorem tick_catches_every_awaited_error:
  "\<exists>r w' evs. tick agent w = (r, w', evs) \<and>
     (r = Return True \<or> (\<exists>e c. r = Crash e \<and> queuedCall c \<and> Called c (Some e) \<in> set evs)) \<and>
     (\<forall>c e. Called c (Some e) \<in> set evs \<and> \<not> queuedCall c \<longrightarrow>
        r = Return True \<and>
        (\<exists>pre. evs = pre @ [Called c (Some e),
           Log Warn ''Synchronization loop failed:''
             (JObj [(''error'', JStr (message e))])]) \<and>
        loop (Suc n) (tick agent) 5000 w
          = (case loop n (tick agent) 5000 w' of (r', w'', evs') \<Rightarrow> (r', w'', evs @ evs')))"
proof -
  let ?warn = "\<lambda>e. Log Warn ''Synchronization loop failed:'' (JObj [(''error'', JStr (message e))])"
  from tick_run [of agent w]
  obtain r w' evs where tick: "tick agent w = (r, w', evs)"
    and outcome: "r = Return True \<or>
        (\<exists>e c. r = Crash e \<and> queuedCall c \<and> Called c (Some e) \<in> set evs)"
    and caught: "\<forall>c e. Called c (Some e) \<in> set evs \<and> \<not> queuedCall c \<longrightarrow>
        r = Return True \<and> (\<exists>pre. evs = pre @ [Called c (Some e), ?warn e])"
    by (elim exE conjE)
  have goes_on: "\<forall>c e. Called c (Some e) \<in> set evs \<and> \<not> queuedCall c \<longrightarrow>
        r = Return True \<and> (\<exists>pre. evs = pre @ [Called c (Some e), ?warn e]) \<and>
        loop (Suc n) (tick agent) 5000 w
          = (case loop n (tick agent) 5000 w' of (r', w'', evs') \<Rightarrow> (r', w'', evs @ evs'))"
  proof (intro allI impI)
    fix c e
    assume a: "Called c (Some e) \<in> set evs \<and> \<not> queuedCall c"
    note this_call = caught [rule_format, OF a]
    from this_call have r: "r = Return True"
      by (rule conjunct1)
    from this_call have warned: "\<exists>pre. evs = pre @ [Called c (Some e), ?warn e]"
      by (rule conjunct2)
    from tick r have "tick agent w = (Return True, w', evs)" by simp
    then have round: "loop (Suc n) (tick agent) 5000 w
          = (case loop n (tick agent) 5000 w' of (r', w'', evs') \<Rightarrow> (r', w'', evs @ evs'))"
      by (rule loop_round)
    show "r = Return True \<and> (\<exists>pre. evs = pre @ [Called c (Some e), ?warn e]) \<and>
        loop (Suc n) (tick agent) 5000 w
          = (case loop n (tick agent) 5000 w' of (r', w'', evs') \<Rightarrow> (r', w'', evs @ evs'))"
      by (rule conjI [OF r conjI [OF warned round]])
  qed
  show ?thesis
    apply (rule exI [where x = r])
    apply (rule exI [where x = w'])
    apply (rule exI [where x = evs])
    apply (rule conjI [OF tick conjI [OF outcome goes_on]])
    done
qed

theorem tick_catches_every_awaited_error_witness:
  "fst (tick (exampleAgent (\<lambda>w. syncedStatus) True False) 0) = Return True \<and>
   (\<exists>pre. snd (snd (tick (exampleAgent (\<lambda>w. syncedStatus) True False) 0))
     = pre @ [Called (Settle oldAllocation) (Some (Error ''settle failed'')),
        Log Warn ''Synchronization loop failed:'' (JObj [(''error'', JStr ''settle failed'')])])"
proof -
  let ?agent = "exampleAgent (\<lambda>w. syncedStatus) True False"
  let ?warn = "\<lambda>e. Log Warn ''Synchronization loop failed:'' (JObj [(''error'', JStr (message e))])"
  from tick_catches_every_awaited_error [of ?agent 0 0]
  obtain r w' evs where tick: "tick ?agent 0 = (r, w', evs)"
    and caught: "\<forall>c e. Called c (Some e) \<in> set evs \<and> \<not> queuedCall c \<longrightarrow>
        r = Return True \<and> (\<exists>pre. evs = pre @ [Called c (Some e), ?warn e]) \<and>
        loop (Suc 0) (tick ?agent) 5000 0
          = (case loop 0 (tick ?agent) 5000 w' of (r', w'', evs') \<Rightarrow> (r', w'', evs @ evs'))"
    by (elim exE conjE)
  from example_tick_settle_failed tick
  have mem: "Called (Settle oldAllocation) (Some (Error ''settle failed'')) \<in> set evs"
    by simp
  have awaited: "\<not> queuedCall (Settle oldAllocation)"
    by simp
  note this_call = caught [rule_format, OF conjI [OF mem awaited]]
  from this_call have r: "r = Return True"
    by (rule conjunct1)
  from this_call [THEN conjunct2, THEN conjunct1]
  have warned: "\<exists>pre. evs = pre
      @ [Called (Settle oldAllocation) (Some (Error ''settle failed'')),
         Log Warn ''Synchronization loop failed:'' (JObj [(''error'', JStr ''settle failed'')])]"
    by simp
  from tick r warned show ?thesis by simp
qed

text \<open>
  Claim C6 fails in the code where it says that no error during a tick terminates the
  loop. Take the example agent whose indexer rejects \<open>remove\<close>, every other call
  succeeding, and give the reconciliation loop the fuel for two ticks. The first tick
  gathers its snapshots, settles the old allocation, hands the tasks to the queue and
  makes the \<open>remove\<close> call, which is rejected inside its task. Nothing handles the
  rejection, so the process ends at the drain of the queue: the tick does not return,
  and the loop does not go on to a second tick. The error is not turned into a warning
  either: beside entries of level \<open>Info\<close>, the events of the run are its calls and the
  unhandled rejection.
\<close>

theorem rejected_remove_ends_the_loop:
  "fst (loop (Suc (Suc 0)) (tick (exampleAgent (\<lambda>w. syncedStatus) False True)) 5000 0)
     = Crash (Error ''remove failed'') \<and>
   filter (\<lambda>ev. \<not> infoLog ev)
     (snd (snd (loop (Suc (Suc 0)) (tick (exampleAgent (\<lambda>w. syncedStatus) False True)) 5000 0)))
     = [Called CurrentEpoch None, Called MaxAllocationEpochs None,
        Called SubgraphDeployments None, Called (IndexerRules True) None,
        Called SubgraphDeploymentsWorthIndexing None, Called ActiveAllocations None,
        Called (Settle oldAllocation) None,
        Called (Ensure (deploymentName X) X) None,
        Called (Ensure (deploymentName SELF) SELF) None,
        Called (Remove Y) (Some (Error ''remove failed'')),
        Unhandled (Error ''remove failed'')]"
  by (simp add: tick_def synchronize_def resolve_def try_catch_def bnd_def logger_def
      perform_def ret_def example_plan exampleAgent_def exampleIndexer_def exampleNetwork_def
      deployAndRemove_def deployTask_def removeTask_def queue_add_def
      queue_onIdle_def detached_def delay_def)

text \<open>
  Claim C10. With the self-tracking deployment appended to the network-desired list,
  \<open>toRemove\<close> never holds it; and in the reconciliation loop, which appends it before
  every call of \<open>resolve\<close>, no \<open>remove\<close> call is ever made for a deployment with the
  \<open>bytes32\<close> form of the agent's network subgraph deployment, in any number of ticks
  from any world.
\<close>

theorem self_never_removed:
  "bytes32 self \<notin> bytes32 ` set (toRemove (plan self epoch maxE (N @ [self]) L A)) \<and>
   (\<forall>d outcome.
      Called (Remove d) outcome \<in> set (snd (snd (loop n (tick agent) 5000 w))) \<longrightarrow>
      bytes32 d \<noteq> bytes32 (networkSubgraphDeployment agent))"
proof (intro conjI allI impI)
  show "bytes32 self \<notin> bytes32 ` set (toRemove (plan self epoch maxE (N @ [self]) L A))"
    by (rule self_not_removed)
next
  fix d outcome
  assume mem: "Called (Remove d) outcome \<in> set (snd (snd (loop n (tick agent) 5000 w)))"
  have "emits (loop n (tick agent) 5000) (keepsSelf (networkSubgraphDeployment agent))"
    by (rule emits_loop) (rule emits_tick)
  then have "list_all (keepsSelf (networkSubgraphDeployment agent))
      (snd (snd (loop n (tick agent) 5000 w)))"
    unfolding emits_def by (rule spec)
  then have "\<forall>ev \<in> set (snd (snd (loop n (tick agent) 5000 w))).
      keepsSelf (networkSubgraphDeployment agent) ev"
    by (simp add: list_all_iff)
  from this mem
  have "keepsSelf (networkSubgraphDeployment agent) (Called (Remove d) outcome)"
    by (rule bspec)
  then show "bytes32 d \<noteq> bytes32 (networkSubgraphDeployment agent)"
    by simp
qed

theorem self_never_removed_witness:
  "Called (Remove Y) None
     \<in> set (snd (snd (loop (Suc 0) (tick (exampleAgent (\<lambda>w. syncedStatus) True True)) 5000 0))) \<and>
   bytes32 Y \<noteq> bytes32 (networkSubgraphDeployment (exampleAgent (\<lambda>w. syncedStatus) True True))"
proof -
  let ?agent = "exampleAgent (\<lambda>w. syncedStatus) True True"
  have mem: "Called (Remove Y) None \<in> set (snd (snd (loop (Suc 0) (tick ?agent) 5000 0)))"
    by (simp add: tick_def synchronize_def resolve_def try_catch_def bnd_def logger_def
      perform_def ret_def example_plan exampleAgent_def exampleIndexer_def exampleNetwork_def
      deployAndRemove_def deployTask_def removeTask_def queue_add_def
      queue_onIdle_def detached_def delay_def)
  from self_never_removed [where agent = ?agent and n = "Suc 0" and w = 0]
  have "\<forall>d outcome.
      Called (Remove d) outcome \<in> set (snd (snd (loop (Suc 0) (tick ?agent) 5000 0))) \<longrightarrow>
      bytes32 d \<noteq> bytes32 (networkSubgraphDeployment ?agent)"
    by (rule conjunct2)
  from this [rule_format, OF mem] mem show ?thesis by (intro conjI)
qed

text \<open>
  The sync-wait loop of \<open>start\<close>, for a status that lists a chain. Let a round of the
  loop read \<open>status\<close>. If its health is not \<open>healthy\<close>, the loop throws, and what
  follows the loop in \<open>start\<close> (here \<open>ready\<close>) is never run; when the status has a
  fatal error, the message of the error thrown ends with the message of that fatal error.
  If the status is healthy and synced, the loop ends without another poll and \<open>ready\<close>
  runs. If it is healthy and not synced and lists at least one chain, the round logs the
  progress (the latest block and the chain head block of the first chain) and the loop
  polls again.
\<close>

theorem sync_wait_follows_status:
  assumes status:
    "indexingStatus (indexer agent) (networkSubgraphDeployment agent) w = (Inr status, w')"
  shows "(health status \<noteq> ''healthy'' \<longrightarrow>
      (\<exists>e. bnd (loop (Suc n) (syncStatusPoll agent) 5000) ready w
              = (Throw e, w', pollEvents (networkSubgraphDeployment agent)) \<and>
           (\<forall>fatal. fatalError status = Some fatal \<longrightarrow>
              message e = ''Failed to index network subgraph deployment '' @ [CHR 0x27]
                @ toString (networkSubgraphDeployment agent) @ [CHR 0x27] @ '': ''
                @ fatal_message fatal))) \<and>
    (health status = ''healthy'' \<and> synced status \<longrightarrow>
      bnd (loop (Suc n) (syncStatusPoll agent) 5000) ready w
        = (case ready () w' of
             (r, w'', evs) \<Rightarrow> (r, w'', pollEvents (networkSubgraphDeployment agent) @ evs))) \<and>
    (health status = ''healthy'' \<and> \<not> synced status \<and> chains status \<noteq> [] \<longrightarrow>
      loop (Suc n) (syncStatusPoll agent) 5000 w
        = (case loop n (syncStatusPoll agent) 5000 w' of
             (r, w'', evs) \<Rightarrow> (r, w'', (pollEvents (networkSubgraphDeployment agent) @
               [Log Info ''Network subgraph is synced''
                  (JObj [(''latestBlock'', JNum (latestBlock (hd (chains status)))),
                         (''chainHeadBlock'', JNum (chainHeadBlock (hd (chains status))))])])
               @ evs)))"
proof (intro conjI impI)
  assume unhealthy: "health status \<noteq> ''healthy''"
  from syncStatusPoll_unhealthy [OF status unhealthy]
  obtain e where poll: "syncStatusPoll agent w
      = (Throw e, w', pollEvents (networkSubgraphDeployment agent))"
    and msg: "\<forall>fatal. fatalError status = Some fatal \<longrightarrow>
        message e = ''Failed to index network subgraph deployment '' @ [CHR 0x27]
          @ toString (networkSubgraphDeployment agent) @ [CHR 0x27] @ '': ''
          @ fatal_message fatal"
    by (elim exE conjE)
  from loop_throw [of "syncStatusPoll agent" w e w' _ n 5000, OF poll]
  have "bnd (loop (Suc n) (syncStatusPoll agent) 5000) ready w
      = (Throw e, w', pollEvents (networkSubgraphDeployment agent))"
    by (rule bnd_Throw)
  with msg show "\<exists>e. bnd (loop (Suc n) (syncStatusPoll agent) 5000) ready w
              = (Throw e, w', pollEvents (networkSubgraphDeployment agent)) \<and>
           (\<forall>fatal. fatalError status = Some fatal \<longrightarrow>
              message e = ''Failed to index network subgraph deployment '' @ [CHR 0x27]
                @ toString (networkSubgraphDeployment agent) @ [CHR 0x27] @ '': ''
                @ fatal_message fatal)"
    by (intro exI [where x = e] conjI)
next
  assume "health status = ''healthy'' \<and> synced status"
  then have "syncStatusPoll agent w
      = (Return False, w', pollEvents (networkSubgraphDeployment agent))"
    using syncStatusPoll_synced [OF status] by simp
  from loop_stop [of "syncStatusPoll agent" w w' _ n 5000, OF this]
  show "bnd (loop (Suc n) (syncStatusPoll agent) 5000) ready w
        = (case ready () w' of
             (r, w'', evs) \<Rightarrow> (r, w'', pollEvents (networkSubgraphDeployment agent) @ evs))"
    by (rule bnd_Return)
next
  assume "health status = ''healthy'' \<and> \<not> synced status \<and> chains status \<noteq> []"
  then have "syncStatusPoll agent w = (Return True, w',
     pollEvents (networkSubgraphDeployment agent) @
     [Log Info ''Network subgraph is synced''
        (JObj [(''latestBlock'', JNum (latestBlock (hd (chains status)))),
               (''chainHeadBlock'', JNum (chainHeadBlock (hd (chains status))))])])"
    using syncStatusPoll_syncing [OF status] by simp
  then show "loop (Suc n) (syncStatusPoll agent) 5000 w
        = (case loop n (syncStatusPoll agent) 5000 w' of
             (r, w'', evs) \<Rightarrow> (r, w'', (pollEvents (networkSubgraphDeployment agent) @
               [Log Info ''Network subgraph is synced''
                  (JObj [(''latestBlock'', JNum (latestBlock (hd (chains status)))),
                         (''chainHeadBlock'', JNum (chainHeadBlock (hd (chains status))))])])
               @ evs))"
    by (rule loop_round)
qed

theorem sync_wait_follows_status_witness:
  "(\<exists>e. bnd (loop (Suc 0) (syncStatusPoll (exampleAgent (\<lambda>w. failedStatus) True True)) 5000)
          (\<lambda>_. logger Info ''Network subgraph deployment is synced'' JNull) 0
        = (Throw e, Suc 0, pollEvents SELF) \<and>
        message e = ''Failed to index network subgraph deployment '' @ [CHR 0x27]
          @ ''0x00'' @ [CHR 0x27] @ '': X'') \<and>
   bnd (loop (Suc 0) (syncStatusPoll (exampleAgent (\<lambda>w. syncedStatus) True True)) 5000)
          (\<lambda>_. logger Info ''Network subgraph deployment is synced'' JNull) 0
        = (Return (), Suc 0, pollEvents SELF
             @ [Log Info ''Network subgraph deployment is synced'' JNull]) \<and>
   loop (Suc (Suc 0))
      (syncStatusPoll (exampleAgent (\<lambda>w. if w = 0 then syncingStatus else syncedStatus)
         True True)) 5000 0
        = (Return (), Suc (Suc 0), pollEvents SELF
             @ [Log Info ''Network subgraph is synced''
                  (JObj [(''latestBlock'', JNum 50), (''chainHeadBlock'', JNum 200)])]
             @ pollEvents SELF)"
proof -
  let ?ready = "\<lambda>_ :: unit. logger Info ''Network subgraph deployment is synced'' JNull
      :: (nat, unit) act"
  let ?failed = "exampleAgent (\<lambda>w. failedStatus) True True"
  let ?synced = "exampleAgent (\<lambda>w. syncedStatus) True True"
  let ?syncing = "exampleAgent (\<lambda>w. if w = 0 then syncingStatus else syncedStatus) True True"
  have self: "networkSubgraphDeployment (exampleAgent statusAt removable settleable) = SELF"
    for statusAt removable settleable
    by (simp add: exampleAgent_def)
  have failed: "indexingStatus (indexer ?failed) (networkSubgraphDeployment ?failed) 0
      = (Inr failedStatus, Suc 0)"
    by (simp add: exampleAgent_def exampleIndexer_def)
  have synced: "indexingStatus (indexer ?synced) (networkSubgraphDeployment ?synced) 0
      = (Inr syncedStatus, Suc 0)"
    by (simp add: exampleAgent_def exampleIndexer_def)
  have syncing: "indexingStatus (indexer ?syncing) (networkSubgraphDeployment ?syncing) 0
      = (Inr syncingStatus, Suc 0)"
    by (simp add: exampleAgent_def exampleIndexer_def)
  have then_synced: "indexingStatus (indexer ?syncing) (networkSubgraphDeployment ?syncing) (Suc 0)
      = (Inr syncedStatus, Suc (Suc 0))"
    by (simp add: exampleAgent_def exampleIndexer_def)
  have first: "\<exists>e. bnd (loop (Suc 0) (syncStatusPoll ?failed) 5000) ?ready 0
        = (Throw e, Suc 0, pollEvents SELF) \<and>
        message e = ''Failed to index network subgraph deployment '' @ [CHR 0x27]
          @ ''0x00'' @ [CHR 0x27] @ '': X''"
    using sync_wait_follows_status [OF failed, of 0 ?ready]
    by (simp add: self failedStatus_def SELF_def del: loop.simps)
  have second: "bnd (loop (Suc 0) (syncStatusPoll ?synced) 5000) ?ready 0
        = (Return (), Suc 0, pollEvents SELF
             @ [Log Info ''Network subgraph deployment is synced'' JNull])"
    using sync_wait_follows_status [OF synced, of 0 ?ready]
    by (simp add: self syncedStatus_def logger_def del: loop.simps)
  have "syncStatusPoll ?syncing (Suc 0) = (Return False, Suc (Suc 0), pollEvents SELF)"
    using syncStatusPoll_synced [OF then_synced]
    by (simp add: self syncedStatus_def)
  then have last: "loop (Suc 0) (syncStatusPoll ?syncing) 5000 (Suc 0)
      = (Return (), Suc (Suc 0), pollEvents SELF)"
    by (rule loop_stop)
  have third: "loop (Suc (Suc 0)) (syncStatusPoll ?syncing) 5000 0
        = (Return (), Suc (Suc 0), pollEvents SELF
             @ [Log Info ''Network subgraph is synced''
                  (JObj [(''latestBlock'', JNum 50), (''chainHeadBlock'', JNum 200)])]
             @ pollEvents SELF)"
    using sync_wait_follows_status [OF syncing, of "Suc 0" ?ready]
    by (simp add: self syncingStatus_def last del: loop.simps)
  from first second third show ?thesis by (intro conjI)
qed

text \<open>
  Claim C8 fails in the code, in its last case, for a status that is healthy, not synced,
  and lists no chain. The branch of the code that logs the progress and keeps waiting
  reads the first chain of the status without a check: with no chain that read throws a
  \<open>TypeError\<close>, so that the round logs no progress, and the loop, which had fuel for a
  second poll, ends with the error instead of polling again.
\<close>

theorem sync_wait_without_chain_throws:
  "loop (Suc (Suc 0)) (syncStatusPoll (exampleAgent (\<lambda>w. stalledStatus) True True)) 5000 0
   = (Throw (TypeError ''latestBlock''), Suc 0, pollEvents SELF)"
  by (simp add: syncStatusPoll_def bnd_def logger_def perform_def throw_def pollEvents_def
      agent_defs)

end
